theory Spec2Isabelle
  imports Complex_Main "HOL-Library.Multiset"
begin

section \<open>The object store\<close>

text \<open>
  The formatter graph of \<^verbatim>\<open>FormatterGraph.cpp\<close> is a pointer structure: a graph holds
  pointers to its nodes, a node owns its pins and its edge records, an edge record holds
  two pin pointers and a pin points back at its owning node. Every edge of the drawing is
  recorded twice: once in the \<^verbatim>\<open>OutEdges\<close> of its tail node (\<^verbatim>\<open>From\<close> the tail's output
  pin, \<^verbatim>\<open>To\<close> the head's input pin) and once in the \<^verbatim>\<open>InEdges\<close> of its head node
  (\<^verbatim>\<open>From\<close> the head's input pin, \<^verbatim>\<open>To\<close> the tail's output pin).

  Pointers are addresses (natural numbers) into four stores, one per class; \<^verbatim>\<open>new\<close>
  takes the next unused address of the store. A null pointer is \<open>None\<close>. \<^verbatim>\<open>delete\<close> is
  not tracked: the stores keep the last contents of a freed object.
  \<^verbatim>\<open>FGuid::NewGuid()\<close> is a counter of fresh values. Coordinates (\<^verbatim>\<open>FVector2D\<close>) are only
  stored and copied, never computed with.
\<close>

type_synonym FGuid = nat
type_synonym node_ptr = nat
type_synonym pin_ptr = nat
type_synonym edge_ptr = nat
type_synonym graph_ptr = nat
type_synonym FVector2D = "real \<times> real"

datatype EEdGraphPinDirection = EGPD_Input | EGPD_Output

record FFormatterPin =
  PinGuid :: FGuid
  OriginalPin :: "nat option"
  Direction :: EEdGraphPinDirection
  OwningNode :: node_ptr
  NodeOffset :: FVector2D

record FFormatterEdge =
  From :: pin_ptr
  FromIndex :: int
  To :: pin_ptr
  ToIndex :: int

record FFormatterNode =
  Guid :: FGuid
  OriginalNode :: "nat option"
  SubGraph :: "graph_ptr option"
  Size :: FVector2D
  InEdges :: "edge_ptr list"
  OutEdges :: "edge_ptr list"
  InPins :: "pin_ptr list"
  OutPins :: "pin_ptr list"
  PathDepth :: int
  PositioningPriority :: int
  Position :: FVector2D
  OrderValue :: real

record FFormatterGraph =
  Nodes :: "node_ptr list"
  NodesMap :: "FGuid \<rightharpoonup> node_ptr"
  SubGraphs :: "FGuid \<rightharpoonup> graph_ptr"
  PinsMap :: "FGuid \<rightharpoonup> pin_ptr"
  OriginalPinsMap :: "nat \<rightharpoonup> pin_ptr"
  LayeredList :: "node_ptr list list"
  IsolatedGraphs :: "graph_ptr list"

record heap =
  nodes :: "node_ptr \<Rightarrow> FFormatterNode"
  pins :: "pin_ptr \<Rightarrow> FFormatterPin"
  edges :: "edge_ptr \<Rightarrow> FFormatterEdge"
  graphs :: "graph_ptr \<Rightarrow> FFormatterGraph"
  next_node :: nat
  next_pin :: nat
  next_edge :: nat
  next_graph :: nat
  next_guid :: nat

subsection \<open>Allocation\<close>

definition NewGuid :: "heap \<Rightarrow> FGuid \<times> heap" where
  "NewGuid h = (next_guid h, h\<lparr>next_guid := Suc (next_guid h)\<rparr>)"

definition new_pin :: "FFormatterPin \<Rightarrow> heap \<Rightarrow> pin_ptr \<times> heap" where
  "new_pin p h = (next_pin h, h\<lparr>pins := (pins h)(next_pin h := p), next_pin := Suc (next_pin h)\<rparr>)"

definition new_edge :: "FFormatterEdge \<Rightarrow> heap \<Rightarrow> edge_ptr \<times> heap" where
  "new_edge e h = (next_edge h, h\<lparr>edges := (edges h)(next_edge h := e), next_edge := Suc (next_edge h)\<rparr>)"

text \<open>Field updates through a pointer.\<close>

definition set_node :: "node_ptr \<Rightarrow> (FFormatterNode \<Rightarrow> FFormatterNode) \<Rightarrow> heap \<Rightarrow> heap" where
  "set_node p f h = h\<lparr>nodes := (nodes h)(p := f (nodes h p))\<rparr>"

definition set_edge :: "edge_ptr \<Rightarrow> (FFormatterEdge \<Rightarrow> FFormatterEdge) \<Rightarrow> heap \<Rightarrow> heap" where
  "set_edge p f h = h\<lparr>edges := (edges h)(p := f (edges h p))\<rparr>"

definition set_graph :: "graph_ptr \<Rightarrow> (FFormatterGraph \<Rightarrow> FFormatterGraph) \<Rightarrow> heap \<Rightarrow> heap" where
  "set_graph p f h = h\<lparr>graphs := (graphs h)(p := f (graphs h p))\<rparr>"

subsection \<open>Array helpers of the engine\<close>

text \<open>
  \<^verbatim>\<open>TArray::IndexOfByPredicate\<close> gives the first index whose element satisfies the predicate
  (\<open>None\<close> for \<^verbatim>\<open>INDEX_NONE\<close>), \<^verbatim>\<open>TArray::RemoveAt\<close> removes one position, \<^verbatim>\<open>TArray::Find\<close>
  gives the first index of an element or \<^verbatim>\<open>INDEX_NONE = -1\<close>, \<^verbatim>\<open>TArray::Remove\<close> removes
  every occurrence (\<open>removeAll\<close>). A loop whose body can fail (a \<^verbatim>\<open>TMap::operator[]\<close> on a
  missing key stops the program) is \<open>forM\<close>.
\<close>

fun IndexOfByPredicate :: "('a \<Rightarrow> bool) \<Rightarrow> 'a list \<Rightarrow> nat option" where
  "IndexOfByPredicate P [] = None"
| "IndexOfByPredicate P (x # xs) =
     (if P x then Some 0 else map_option Suc (IndexOfByPredicate P xs))"

definition RemoveAt :: "nat \<Rightarrow> 'a list \<Rightarrow> 'a list" where
  "RemoveAt i xs = take i xs @ drop (Suc i) xs"

definition TArray_Find :: "'a list \<Rightarrow> 'a \<Rightarrow> int" where
  "TArray_Find xs x = (case IndexOfByPredicate (\<lambda>y. y = x) xs of None \<Rightarrow> - 1 | Some i \<Rightarrow> int i)"

fun forM :: "('a \<Rightarrow> 's \<Rightarrow> 's option) \<Rightarrow> 'a list \<Rightarrow> 's \<Rightarrow> 's option" where
  "forM f [] s = Some s"
| "forM f (x # xs) s = (case f x s of None \<Rightarrow> None | Some s' \<Rightarrow> forM f xs s')"

section \<open>Nodes\<close>

text \<open>
  \<^verbatim>\<open>FFormatterNode::Connect\<close> and \<^verbatim>\<open>FFormatterNode::Disconnect\<close>: the direction of the
  source pin selects the edge list. The two index members of a new edge record are not
  set by \<^verbatim>\<open>Connect\<close>; they are taken as 0 here, and every reader of them below writes
  them first.
\<close>

definition Connect :: "node_ptr \<Rightarrow> pin_ptr \<Rightarrow> pin_ptr \<Rightarrow> heap \<Rightarrow> heap" where
  "Connect this SourcePin TargetPin h =
     (case new_edge \<lparr>From = SourcePin, FromIndex = 0, To = TargetPin, ToIndex = 0\<rparr> h of
        (Edge, h1) \<Rightarrow>
          if Direction (pins h1 SourcePin) = EGPD_Output
          then set_node this (\<lambda>n. n\<lparr>OutEdges := OutEdges n @ [Edge]\<rparr>) h1
          else set_node this (\<lambda>n. n\<lparr>InEdges := InEdges n @ [Edge]\<rparr>) h1)"

definition Disconnect_Predicate :: "heap \<Rightarrow> pin_ptr \<Rightarrow> pin_ptr \<Rightarrow> edge_ptr \<Rightarrow> bool" where
  "Disconnect_Predicate h SourcePin TargetPin Edge =
     (From (edges h Edge) = SourcePin \<and> To (edges h Edge) = TargetPin)"

definition Disconnect :: "node_ptr \<Rightarrow> pin_ptr \<Rightarrow> pin_ptr \<Rightarrow> heap \<Rightarrow> heap" where
  "Disconnect this SourcePin TargetPin h =
     (if Direction (pins h SourcePin) = EGPD_Output
      then (case IndexOfByPredicate (Disconnect_Predicate h SourcePin TargetPin) (OutEdges (nodes h this)) of
              Some Index \<Rightarrow> set_node this (\<lambda>n. n\<lparr>OutEdges := RemoveAt Index (OutEdges n)\<rparr>) h
            | None \<Rightarrow> h)
      else (case IndexOfByPredicate (Disconnect_Predicate h SourcePin TargetPin) (InEdges (nodes h this)) of
              Some Index \<Rightarrow> set_node this (\<lambda>n. n\<lparr>InEdges := RemoveAt Index (InEdges n)\<rparr>) h
            | None \<Rightarrow> h))"

text \<open>\<open>EdgeTarget\<close> is the expression \<^verbatim>\<open>Edge->To->OwningNode\<close>.\<close>

definition EdgeTarget :: "heap \<Rightarrow> edge_ptr \<Rightarrow> node_ptr" where
  "EdgeTarget h Edge = OwningNode (pins h (To (edges h Edge)))"

definition GetSuccessors :: "heap \<Rightarrow> node_ptr \<Rightarrow> node_ptr list" where
  "GetSuccessors h this = map (EdgeTarget h) (OutEdges (nodes h this))"

definition GetPredecessors :: "heap \<Rightarrow> node_ptr \<Rightarrow> node_ptr list" where
  "GetPredecessors h this = map (EdgeTarget h) (InEdges (nodes h this))"

definition IsSource :: "heap \<Rightarrow> node_ptr \<Rightarrow> bool" where
  "IsSource h this = (length (InEdges (nodes h this)) = 0)"

definition IsSink :: "heap \<Rightarrow> node_ptr \<Rightarrow> bool" where
  "IsSink h this = (length (OutEdges (nodes h this)) = 0)"

definition GetInputPinCount :: "heap \<Rightarrow> node_ptr \<Rightarrow> int" where
  "GetInputPinCount h this = int (length (InPins (nodes h this)))"

definition GetInputPinIndex :: "heap \<Rightarrow> node_ptr \<Rightarrow> pin_ptr \<Rightarrow> int" where
  "GetInputPinIndex h this InputPin = TArray_Find (InPins (nodes h this)) InputPin"

definition GetOutputPinCount :: "heap \<Rightarrow> node_ptr \<Rightarrow> int" where
  "GetOutputPinCount h this = int (length (OutPins (nodes h this)))"

definition GetOutputPinIndex :: "heap \<Rightarrow> node_ptr \<Rightarrow> pin_ptr \<Rightarrow> int" where
  "GetOutputPinIndex h this OutputPin = TArray_Find (OutPins (nodes h this)) OutputPin"

text \<open>
  The default constructor \<^verbatim>\<open>FFormatterNode::FFormatterNode()\<close> builds the synthetic node:
  a fresh identity, one input pin and one output pin. \<^verbatim>\<open>OrderValue\<close> is not set by the
  constructor and is taken as 0.
\<close>

definition INT_MAX :: int where
  "INT_MAX = 2147483647"

definition FFormatterNode_default :: "heap \<Rightarrow> node_ptr \<times> heap" where
  "FFormatterNode_default h =
     (let this = next_node h;
          h0 = h\<lparr>next_node := Suc this\<rparr>
      in case NewGuid h0 of (g, h1) \<Rightarrow>
         case NewGuid h1 of (gi, h2) \<Rightarrow>
         case new_pin \<lparr>PinGuid = gi, OriginalPin = None, Direction = EGPD_Input,
                        OwningNode = this, NodeOffset = (0, 0)\<rparr> h2 of (InPin, h3) \<Rightarrow>
         case NewGuid h3 of (go, h4) \<Rightarrow>
         case new_pin \<lparr>PinGuid = go, OriginalPin = None, Direction = EGPD_Output,
                        OwningNode = this, NodeOffset = (0, 0)\<rparr> h4 of (OutPin, h5) \<Rightarrow>
         (this, h5\<lparr>nodes := (nodes h5)(this :=
            \<lparr>Guid = g, OriginalNode = None, SubGraph = None, Size = (1, 1),
             InEdges = [], OutEdges = [], InPins = [InPin], OutPins = [OutPin],
             PathDepth = 0, PositioningPriority = INT_MAX, Position = (0, 0),
             OrderValue = 0\<rparr>)\<rparr>))"

section \<open>Graphs: adding and removing nodes\<close>

definition AddNode_pin :: "graph_ptr \<Rightarrow> pin_ptr \<Rightarrow> heap \<Rightarrow> heap" where
  "AddNode_pin this Pin h =
     (let h1 = (case OriginalPin (pins h Pin) of
                  Some op \<Rightarrow> set_graph this (\<lambda>g. g\<lparr>OriginalPinsMap := (OriginalPinsMap g)(op \<mapsto> Pin)\<rparr>) h
                | None \<Rightarrow> h)
      in set_graph this (\<lambda>g. g\<lparr>PinsMap := (PinsMap g)(PinGuid (pins h1 Pin) \<mapsto> Pin)\<rparr>) h1)"

definition AddNode :: "graph_ptr \<Rightarrow> node_ptr \<Rightarrow> heap \<Rightarrow> heap" where
  "AddNode this InNode h =
     (let h1 = set_graph this (\<lambda>g. g\<lparr>Nodes := Nodes g @ [InNode]\<rparr>) h;
          h2 = set_graph this (\<lambda>g. g\<lparr>NodesMap := (NodesMap g)(Guid (nodes h1 InNode) \<mapsto> InNode)\<rparr>) h1;
          h3 = (case SubGraph (nodes h2 InNode) of
                  Some sg \<Rightarrow> set_graph this (\<lambda>g. g\<lparr>SubGraphs := (SubGraphs g)(Guid (nodes h2 InNode) \<mapsto> sg)\<rparr>) h2
                | None \<Rightarrow> h2);
          h4 = fold (AddNode_pin this) (InPins (nodes h3 InNode)) h3
      in fold (AddNode_pin this) (OutPins (nodes h4 InNode)) h4)"

definition RemoveNode_edge :: "edge_ptr \<Rightarrow> heap \<Rightarrow> heap" where
  "RemoveNode_edge Edge h =
     Disconnect (EdgeTarget h Edge) (To (edges h Edge)) (From (edges h Edge)) h"

definition RemoveNode_pin :: "graph_ptr \<Rightarrow> pin_ptr \<Rightarrow> heap \<Rightarrow> heap" where
  "RemoveNode_pin this Pin h =
     (let h1 = (case OriginalPin (pins h Pin) of
                  Some op \<Rightarrow> set_graph this (\<lambda>g. g\<lparr>OriginalPinsMap := (OriginalPinsMap g)(op := None)\<rparr>) h
                | None \<Rightarrow> h)
      in set_graph this (\<lambda>g. g\<lparr>PinsMap := (PinsMap g)(PinGuid (pins h1 Pin) := None)\<rparr>) h1)"

definition RemoveNode :: "graph_ptr \<Rightarrow> node_ptr \<Rightarrow> heap \<Rightarrow> heap" where
  "RemoveNode this NodeToRemove h =
     (let h1 = fold RemoveNode_edge (InEdges (nodes h NodeToRemove)) h;
          h2 = fold RemoveNode_edge (OutEdges (nodes h1 NodeToRemove)) h1;
          h3 = set_graph this (\<lambda>g. g\<lparr>Nodes := removeAll NodeToRemove (Nodes g)\<rparr>) h2;
          h4 = set_graph this (\<lambda>g. g\<lparr>NodesMap := (NodesMap g)(Guid (nodes h3 NodeToRemove) := None)\<rparr>) h3;
          h5 = set_graph this (\<lambda>g. g\<lparr>SubGraphs := (SubGraphs g)(Guid (nodes h4 NodeToRemove) := None)\<rparr>) h4;
          h6 = fold (RemoveNode_pin this) (InPins (nodes h5 NodeToRemove)) h5
      in fold (RemoveNode_pin this) (OutPins (nodes h6 NodeToRemove)) h6)"

definition FindSourceNode :: "graph_ptr \<Rightarrow> heap \<Rightarrow> node_ptr option" where
  "FindSourceNode this h = find (IsSource h) (Nodes (graphs h this))"

definition FindSinkNode :: "graph_ptr \<Rightarrow> heap \<Rightarrow> node_ptr option" where
  "FindSinkNode this h = find (IsSink h) (Nodes (graphs h this))"

section \<open>Copy construction\<close>

text \<open>
  \<^verbatim>\<open>FFormatterNode::FFormatterNode(const FFormatterNode&)\<close> copies identity, original node,
  size, path depth and position, clones an owned subgraph, and creates a new pin for every
  pin of the other node, with the same identity and the new node as owner. The edge lists
  of the copy start empty. \<^verbatim>\<open>PositioningPriority\<close> and \<^verbatim>\<open>OrderValue\<close> are not set by the
  constructor and are taken as 0. The parameter \<open>copy_graph\<close> is
  \<^verbatim>\<open>new FFormatterGraph(*Other.SubGraph)\<close>.
\<close>

fun copy_pins :: "node_ptr \<Rightarrow> pin_ptr list \<Rightarrow> heap \<Rightarrow> pin_ptr list \<times> heap" where
  "copy_pins this [] h = ([], h)"
| "copy_pins this (Pin # Ps) h =
     (case new_pin \<lparr>PinGuid = PinGuid (pins h Pin), OriginalPin = OriginalPin (pins h Pin),
                    Direction = Direction (pins h Pin), OwningNode = this,
                    NodeOffset = NodeOffset (pins h Pin)\<rparr> h of
        (NewPin, h1) \<Rightarrow>
          (case copy_pins this Ps h1 of (rest, h2) \<Rightarrow> (NewPin # rest, h2)))"

definition FFormatterNode_copy ::
  "(graph_ptr \<Rightarrow> heap \<Rightarrow> (graph_ptr \<times> heap) option) \<Rightarrow> node_ptr \<Rightarrow> heap \<Rightarrow> (node_ptr \<times> heap) option" where
  "FFormatterNode_copy copy_graph Other h =
     (let this = next_node h;
          h0 = h\<lparr>next_node := Suc this\<rparr>;
          other = nodes h0 Other
      in case (case SubGraph other of
                 Some sg \<Rightarrow> (case copy_graph sg h0 of
                               None \<Rightarrow> None
                             | Some (p, h') \<Rightarrow> Some (Some p, h'))
               | None \<Rightarrow> Some (None, h0)) of
           None \<Rightarrow> None
         | Some (sub, h1) \<Rightarrow>
             (case copy_pins this (InPins (nodes h1 Other)) h1 of (ins, h2) \<Rightarrow>
              case copy_pins this (OutPins (nodes h2 Other)) h2 of (outs, h3) \<Rightarrow>
                Some (this, h3\<lparr>nodes := (nodes h3)(this :=
                  \<lparr>Guid = Guid other, OriginalNode = OriginalNode other, SubGraph = sub,
                   Size = Size other, InEdges = [], OutEdges = [], InPins = ins, OutPins = outs,
                   PathDepth = PathDepth other, PositioningPriority = 0,
                   Position = Position other, OrderValue = 0\<rparr>)\<rparr>)))"

text \<open>
  \<^verbatim>\<open>FFormatterGraph::FFormatterGraph(const FFormatterGraph&)\<close>: clone and add every node,
  then re-create every edge record of every node between the clones, found through the
  identity maps of the new graph, then clone the isolated graphs. The layered list is not
  copied. The constructor recurses through subgraphs and isolated graphs; the recursion
  depth is bounded by the first argument, and running out of it is \<open>None\<close>, as is a
  \<^verbatim>\<open>TMap::operator[]\<close> on a key that is not in the map.
\<close>

definition empty_graph :: FFormatterGraph where
  "empty_graph = \<lparr>Nodes = [], NodesMap = Map.empty, SubGraphs = Map.empty, PinsMap = Map.empty,
                  OriginalPinsMap = Map.empty, LayeredList = [], IsolatedGraphs = []\<rparr>"

definition copy_connect :: "graph_ptr \<Rightarrow> node_ptr \<Rightarrow> edge_ptr \<Rightarrow> heap \<Rightarrow> heap option" where
  "copy_connect this Node Edge h =
     (case PinsMap (graphs h this) (PinGuid (pins h (From (edges h Edge)))) of
        None \<Rightarrow> None
      | Some From' \<Rightarrow>
          (case PinsMap (graphs h this) (PinGuid (pins h (To (edges h Edge)))) of
             None \<Rightarrow> None
           | Some To' \<Rightarrow>
               (case NodesMap (graphs h this) (Guid (nodes h Node)) of
                  None \<Rightarrow> None
                | Some n \<Rightarrow> Some (Connect n From' To' h))))"

definition copy_node_edges :: "graph_ptr \<Rightarrow> node_ptr \<Rightarrow> heap \<Rightarrow> heap option" where
  "copy_node_edges this Node h =
     (case forM (copy_connect this Node) (InEdges (nodes h Node)) h of
        None \<Rightarrow> None
      | Some h' \<Rightarrow> forM (copy_connect this Node) (OutEdges (nodes h' Node)) h')"

definition copy_add_node ::
  "(graph_ptr \<Rightarrow> heap \<Rightarrow> (graph_ptr \<times> heap) option) \<Rightarrow> graph_ptr \<Rightarrow> node_ptr \<Rightarrow> heap \<Rightarrow> heap option" where
  "copy_add_node copy_graph this Node h =
     (case FFormatterNode_copy copy_graph Node h of
        None \<Rightarrow> None
      | Some (Cloned, h') \<Rightarrow> Some (AddNode this Cloned h'))"

definition copy_isolated ::
  "(graph_ptr \<Rightarrow> heap \<Rightarrow> (graph_ptr \<times> heap) option) \<Rightarrow> graph_ptr \<Rightarrow> graph_ptr \<Rightarrow> heap \<Rightarrow> heap option" where
  "copy_isolated copy_graph this Isolated h =
     (case copy_graph Isolated h of
        None \<Rightarrow> None
      | Some (p, h') \<Rightarrow> Some (set_graph this (\<lambda>g. g\<lparr>IsolatedGraphs := IsolatedGraphs g @ [p]\<rparr>) h'))"

primrec FFormatterGraph_copy :: "nat \<Rightarrow> graph_ptr \<Rightarrow> heap \<Rightarrow> (graph_ptr \<times> heap) option" where
  "FFormatterGraph_copy 0 Other h = None"
| "FFormatterGraph_copy (Suc depth) Other h =
     (let this = next_graph h;
          h0 = h\<lparr>graphs := (graphs h)(this := empty_graph), next_graph := Suc this\<rparr>
      in case forM (copy_add_node (FFormatterGraph_copy depth) this) (Nodes (graphs h0 Other)) h0 of
           None \<Rightarrow> None
         | Some h1 \<Rightarrow>
             (case forM (copy_node_edges this) (Nodes (graphs h1 Other)) h1 of
                None \<Rightarrow> None
              | Some h2 \<Rightarrow>
                  (case forM (copy_isolated (FFormatterGraph_copy depth) this)
                          (IsolatedGraphs (graphs h2 Other)) h2 of
                     None \<Rightarrow> None
                   | Some h3 \<Rightarrow> Some (this, h3))))"

section \<open>Cycle removal: choosing the median node\<close>

text \<open>
  \<^verbatim>\<open>FFormatterGraph::FindMedianNode\<close>. \<^verbatim>\<open>TArray::Num\<close> is a non-negative \<^verbatim>\<open>int32\<close>, so the
  difference of two of them cannot wrap; it is computed in \<open>int\<close>.
\<close>

definition DegreeDiff :: "heap \<Rightarrow> node_ptr \<Rightarrow> int" where
  "DegreeDiff h Node = int (length (OutEdges (nodes h Node))) - int (length (InEdges (nodes h Node)))"

definition FindMedianNode_step :: "heap \<Rightarrow> node_ptr \<Rightarrow> node_ptr option \<times> int \<Rightarrow> node_ptr option \<times> int" where
  "FindMedianNode_step h Node acc =
     (case acc of (Result, MaxDegreeDiff) \<Rightarrow>
        if DegreeDiff h Node \<ge> MaxDegreeDiff then (Some Node, DegreeDiff h Node)
        else (Result, MaxDegreeDiff))"

definition FindMedianNode :: "graph_ptr \<Rightarrow> heap \<Rightarrow> node_ptr option" where
  "FindMedianNode this h = fst (fold (FindMedianNode_step h) (Nodes (graphs h this)) (None, 0))"

subsection \<open>The scan keeps the last maximal node\<close>

lemma FindMedianNode_scan:
  "fold (FindMedianNode_step h) xs (None, 0) = (r, m) \<Longrightarrow>
     (\<forall>n \<in> set xs. DegreeDiff h n \<le> m) \<and> 0 \<le> m \<and>
     (if \<exists>n \<in> set xs. DegreeDiff h n \<ge> 0
      then \<exists>i < length xs. r = Some (xs ! i) \<and> DegreeDiff h (xs ! i) = m \<and>
             (\<forall>j. i < j \<and> j < length xs \<longrightarrow> DegreeDiff h (xs ! j) < m)
      else r = None \<and> m = 0)"
proof (induction xs arbitrary: r m rule: rev_induct)
  case Nil
  then show ?case by simp
next
  case (snoc x xs)
  obtain r0 m0 where f0: "fold (FindMedianNode_step h) xs (None, 0) = (r0, m0)"
    by (cases "fold (FindMedianNode_step h) xs (None, 0)") auto
  note IH = snoc.IH [OF f0]
  have step: "FindMedianNode_step h x (r0, m0) = (r, m)"
    using snoc.prems f0 by simp
  show ?case
  proof (cases "DegreeDiff h x \<ge> m0")
    case True
    then have rm: "r = Some x" "m = DegreeDiff h x"
      using step by (auto simp: FindMedianNode_step_def)
    have le: "\<forall>n \<in> set (xs @ [x]). DegreeDiff h n \<le> m"
      using IH True rm by auto
    have ex: "\<exists>n \<in> set (xs @ [x]). DegreeDiff h n \<ge> 0"
      using IH True by auto
    have "length xs < length (xs @ [x]) \<and> r = Some ((xs @ [x]) ! length xs) \<and>
          DegreeDiff h ((xs @ [x]) ! length xs) = m \<and>
          (\<forall>j. length xs < j \<and> j < length (xs @ [x]) \<longrightarrow> DegreeDiff h ((xs @ [x]) ! j) < m)"
      using rm by simp
    then have "\<exists>i < length (xs @ [x]). r = Some ((xs @ [x]) ! i) \<and>
          DegreeDiff h ((xs @ [x]) ! i) = m \<and>
          (\<forall>j. i < j \<and> j < length (xs @ [x]) \<longrightarrow> DegreeDiff h ((xs @ [x]) ! j) < m)"
      by blast
    with le ex IH True rm show ?thesis by simp
  next
    case False
    then have rm: "r = r0" "m = m0"
      using step by (auto simp: FindMedianNode_step_def)
    have le: "\<forall>n \<in> set (xs @ [x]). DegreeDiff h n \<le> m"
      using IH False rm by auto
    show ?thesis
    proof (cases "\<exists>n \<in> set xs. DegreeDiff h n \<ge> 0")
      case True
      then obtain i where i: "i < length xs" "r0 = Some (xs ! i)" "DegreeDiff h (xs ! i) = m0"
        "\<forall>j. i < j \<and> j < length xs \<longrightarrow> DegreeDiff h (xs ! j) < m0"
        using IH by auto
      have later: "\<forall>j. i < j \<and> j < length (xs @ [x]) \<longrightarrow> DegreeDiff h ((xs @ [x]) ! j) < m"
      proof (intro allI impI)
        fix j assume j: "i < j \<and> j < length (xs @ [x])"
        show "DegreeDiff h ((xs @ [x]) ! j) < m"
        proof (cases "j < length xs")
          case True
          then show ?thesis using i(4) j rm by (simp add: nth_append)
        next
          case False
          then have "j = length xs" using j by simp
          then show ?thesis using \<open>\<not> DegreeDiff h x \<ge> m0\<close> rm by simp
        qed
      qed
      have "i < length (xs @ [x]) \<and> r = Some ((xs @ [x]) ! i) \<and> DegreeDiff h ((xs @ [x]) ! i) = m"
        using i rm by (simp add: nth_append)
      with later have "\<exists>i < length (xs @ [x]). r = Some ((xs @ [x]) ! i) \<and>
          DegreeDiff h ((xs @ [x]) ! i) = m \<and>
          (\<forall>j. i < j \<and> j < length (xs @ [x]) \<longrightarrow> DegreeDiff h ((xs @ [x]) ! j) < m)"
        by blast
      moreover have "\<exists>n \<in> set (xs @ [x]). DegreeDiff h n \<ge> 0" using True by auto
      ultimately show ?thesis using le IH rm by simp
    next
      case False
      then have "r0 = None" "m0 = 0" using IH by simp_all
      moreover have "\<not> (\<exists>n \<in> set (xs @ [x]). DegreeDiff h n \<ge> 0)"
        using False \<open>\<not> DegreeDiff h x \<ge> m0\<close> \<open>m0 = 0\<close> by auto
      ultimately show ?thesis using le IH rm by simp
    qed
  qed
qed

text \<open>
  C5. When some node of the graph has out-degree minus in-degree at least 0,
  \<^verbatim>\<open>FindMedianNode\<close> returns a node of the node list whose degree difference is maximal
  over all nodes, and among the nodes attaining the maximum it is the last one in the
  list's iteration order: every later node has a strictly smaller difference.
\<close>

theorem FindMedianNode_last_maximal:
  assumes "\<exists>n \<in> set (Nodes (graphs h this)). DegreeDiff h n \<ge> 0"
  shows "\<exists>i < length (Nodes (graphs h this)).
           FindMedianNode this h = Some (Nodes (graphs h this) ! i) \<and>
           (\<forall>n \<in> set (Nodes (graphs h this)).
              DegreeDiff h n \<le> DegreeDiff h (Nodes (graphs h this) ! i)) \<and>
           (\<forall>j. i < j \<and> j < length (Nodes (graphs h this)) \<longrightarrow>
              DegreeDiff h (Nodes (graphs h this) ! j) < DegreeDiff h (Nodes (graphs h this) ! i))"
proof -
  obtain r m where f: "fold (FindMedianNode_step h) (Nodes (graphs h this)) (None, 0) = (r, m)"
    by (cases "fold (FindMedianNode_step h) (Nodes (graphs h this)) (None, 0)") auto
  from FindMedianNode_scan [OF f] assms
  obtain i where i: "i < length (Nodes (graphs h this))" "r = Some (Nodes (graphs h this) ! i)"
      "DegreeDiff h (Nodes (graphs h this) ! i) = m"
      "\<forall>j. i < j \<and> j < length (Nodes (graphs h this)) \<longrightarrow> DegreeDiff h (Nodes (graphs h this) ! j) < m"
      and le: "\<forall>n \<in> set (Nodes (graphs h this)). DegreeDiff h n \<le> m"
    by auto
  have "FindMedianNode this h = Some (Nodes (graphs h this) ! i)"
    using f i(2) by (simp add: FindMedianNode_def)
  with i le show ?thesis by auto
qed

section \<open>Cycle removal\<close>

text \<open>
  \<^verbatim>\<open>FFormatterGraph::RemoveCycle\<close> works on a clone: it removes source nodes, then sink
  nodes, then repeatedly the median node. For every in-edge of the median node it
  disconnects the two records of that edge in the graph itself (found through the
  identity maps), then removes the median node from the clone. Each of the three loops
  removes a node of the clone's node list per iteration, which is the measure of their
  termination.
\<close>

lemma graphs_set_node [simp]: "graphs (set_node p f h) = graphs h"
  by (simp add: set_node_def)

lemma graphs_Disconnect [simp]: "graphs (Disconnect n s t h) = graphs h"
  by (simp add: Disconnect_def split: option.splits)

lemma graphs_RemoveNode_edge [simp]: "graphs (RemoveNode_edge e h) = graphs h"
  by (simp add: RemoveNode_edge_def)

lemma graphs_fold_RemoveNode_edge [simp]: "graphs (fold RemoveNode_edge es h) = graphs h"
  by (induction es arbitrary: h) auto

lemma Nodes_RemoveNode_pin [simp]: "Nodes (graphs (RemoveNode_pin c p h) c') = Nodes (graphs h c')"
  by (simp add: RemoveNode_pin_def Let_def set_graph_def split: option.splits)

lemma Nodes_fold_RemoveNode_pin [simp]:
  "Nodes (graphs (fold (RemoveNode_pin c) ps h) c') = Nodes (graphs h c')"
  by (induction ps arbitrary: h) auto

lemma Nodes_RemoveNode:
  "Nodes (graphs (RemoveNode c n h) c) = removeAll n (Nodes (graphs h c))"
  by (simp add: RemoveNode_def Let_def set_graph_def)

lemma length_removeAll_less: "n \<in> set xs \<Longrightarrow> length (removeAll n xs) < length xs"
  by (induction xs) (auto simp: less_Suc_eq_le)

lemma find_Some_mem: "find P xs = Some n \<Longrightarrow> n \<in> set xs"
  by (induction xs) (auto split: if_splits)

lemma FindMedianNode_step_mem:
  "fst (fold (FindMedianNode_step h) xs (r, m)) = Some n \<Longrightarrow> r = Some n \<or> n \<in> set xs"
  by (induction xs arbitrary: r m) (auto simp: FindMedianNode_step_def split: if_splits)

lemma FindMedianNode_mem: "FindMedianNode c h = Some n \<Longrightarrow> n \<in> set (Nodes (graphs h c))"
  using FindMedianNode_step_mem [of h "Nodes (graphs h c)" None 0 n]
  by (simp add: FindMedianNode_def)

function RemoveCycle_sources :: "graph_ptr \<Rightarrow> heap \<Rightarrow> heap" where
  "RemoveCycle_sources ClonedGraph h =
     (case FindSourceNode ClonedGraph h of
        None \<Rightarrow> h
      | Some SourceNode \<Rightarrow> RemoveCycle_sources ClonedGraph (RemoveNode ClonedGraph SourceNode h))"
  by pat_completeness auto
termination
  by (relation "measure (\<lambda>(c, h). length (Nodes (graphs h c)))")
     (auto simp: Nodes_RemoveNode FindSourceNode_def intro!: length_removeAll_less find_Some_mem)

function RemoveCycle_sinks :: "graph_ptr \<Rightarrow> heap \<Rightarrow> heap" where
  "RemoveCycle_sinks ClonedGraph h =
     (case FindSinkNode ClonedGraph h of
        None \<Rightarrow> h
      | Some SinkNode \<Rightarrow> RemoveCycle_sinks ClonedGraph (RemoveNode ClonedGraph SinkNode h))"
  by pat_completeness auto
termination
  by (relation "measure (\<lambda>(c, h). length (Nodes (graphs h c)))")
     (auto simp: Nodes_RemoveNode FindSinkNode_def intro!: length_removeAll_less find_Some_mem)

definition RemoveCycle_edge :: "graph_ptr \<Rightarrow> node_ptr \<Rightarrow> edge_ptr \<Rightarrow> heap \<Rightarrow> heap option" where
  "RemoveCycle_edge this MedianNode Edge h =
     (case PinsMap (graphs h this) (PinGuid (pins h (From (edges h Edge)))) of
        None \<Rightarrow> None
      | Some From' \<Rightarrow>
          (case PinsMap (graphs h this) (PinGuid (pins h (To (edges h Edge)))) of
             None \<Rightarrow> None
           | Some To' \<Rightarrow>
               (case NodesMap (graphs h this) (Guid (nodes h MedianNode)) of
                  None \<Rightarrow> None
                | Some n \<Rightarrow>
                    (let h1 = Disconnect n From' To' h
                     in Some (Disconnect (OwningNode (pins h1 To')) To' From' h1)))))"

lemma graphs_RemoveCycle_edge: "RemoveCycle_edge this m e h = Some h' \<Longrightarrow> graphs h' = graphs h"
  by (auto simp: RemoveCycle_edge_def Let_def split: option.splits)

lemma graphs_forM_RemoveCycle_edge:
  "forM (RemoveCycle_edge this m) es h = Some h' \<Longrightarrow> graphs h' = graphs h"
  by (induction es arbitrary: h) (auto split: option.splits dest: graphs_RemoveCycle_edge)

function RemoveCycle_medians :: "graph_ptr \<Rightarrow> graph_ptr \<Rightarrow> heap \<Rightarrow> heap option" where
  "RemoveCycle_medians this ClonedGraph h =
     (case FindMedianNode ClonedGraph h of
        None \<Rightarrow> Some h
      | Some MedianNode \<Rightarrow>
          (case forM (RemoveCycle_edge this MedianNode) (InEdges (nodes h MedianNode)) h of
             None \<Rightarrow> None
           | Some h' \<Rightarrow> RemoveCycle_medians this ClonedGraph (RemoveNode ClonedGraph MedianNode h')))"
  by pat_completeness auto
termination
  by (relation "measure (\<lambda>(t, c, h). length (Nodes (graphs h c)))")
     (auto simp: Nodes_RemoveNode dest!: graphs_forM_RemoveCycle_edge FindMedianNode_mem
           intro!: length_removeAll_less)

declare RemoveCycle_sources.simps [simp del]
declare RemoveCycle_sinks.simps [simp del]
declare RemoveCycle_medians.simps [simp del]

text \<open>
  \<open>RemoveCycle_body\<close> is the function up to its last statement \<^verbatim>\<open>delete ClonedGraph\<close>; it
  gives the clone's address with the store, so that the clone can be inspected.
\<close>

definition RemoveCycle_body :: "nat \<Rightarrow> graph_ptr \<Rightarrow> heap \<Rightarrow> (graph_ptr \<times> heap) option" where
  "RemoveCycle_body depth this h =
     (case FFormatterGraph_copy depth this h of
        None \<Rightarrow> None
      | Some (ClonedGraph, h1) \<Rightarrow>
          (case RemoveCycle_medians this ClonedGraph
                  (RemoveCycle_sinks ClonedGraph (RemoveCycle_sources ClonedGraph h1)) of
             None \<Rightarrow> None
           | Some h2 \<Rightarrow> Some (ClonedGraph, h2)))"

definition RemoveCycle :: "nat \<Rightarrow> graph_ptr \<Rightarrow> heap \<Rightarrow> heap option" where
  "RemoveCycle depth this h = map_option snd (RemoveCycle_body depth this h)"

section \<open>A clone is independent of its original\<close>

text \<open>
  \<open>frame h h'\<close>: the allocation counters have only grown from \<open>h\<close> to \<open>h'\<close>, and every
  object that was allocated in \<open>h\<close> has the same contents in \<open>h'\<close>. The copy constructor
  writes only objects it allocates itself: the new graph, the new nodes and pins, and the
  new edge records, which \<^verbatim>\<open>Connect\<close> adds to the new nodes found through the identity
  maps of the new graph.
\<close>

definition frame :: "heap \<Rightarrow> heap \<Rightarrow> bool" where
  "frame h h' \<longleftrightarrow>
     next_node h \<le> next_node h' \<and> next_pin h \<le> next_pin h' \<and>
     next_edge h \<le> next_edge h' \<and> next_graph h \<le> next_graph h' \<and>
     (\<forall>n < next_node h. nodes h' n = nodes h n) \<and>
     (\<forall>p < next_pin h. pins h' p = pins h p) \<and>
     (\<forall>e < next_edge h. edges h' e = edges h e) \<and>
     (\<forall>g < next_graph h. graphs h' g = graphs h g)"

lemma frame_refl [simp]: "frame h h"
  by (simp add: frame_def)







definition graph_only :: "graph_ptr \<Rightarrow> heap \<Rightarrow> heap \<Rightarrow> bool" where
  "graph_only this h h' \<longleftrightarrow>
     nodes h' = nodes h \<and> pins h' = pins h \<and> edges h' = edges h \<and>
     next_node h' = next_node h \<and> next_pin h' = next_pin h \<and> next_edge h' = next_edge h \<and>
     next_graph h' = next_graph h \<and> (\<forall>g. g \<noteq> this \<longrightarrow> graphs h' g = graphs h g)"

lemma graph_only_refl [simp]: "graph_only this h h"
  by (simp add: graph_only_def)


lemma graph_only_set_graph [simp]: "graph_only this h (set_graph this f h)"
  by (simp add: graph_only_def set_graph_def)

















definition mutated :: "node_ptr set \<Rightarrow> graph_ptr \<Rightarrow> heap \<Rightarrow> heap \<Rightarrow> bool" where
  "mutated S c h h' \<longleftrightarrow>
     pins h' = pins h \<and> edges h' = edges h \<and>
     (\<forall>n. n \<notin> S \<longrightarrow> nodes h' n = nodes h n) \<and>
     (\<forall>g. g \<noteq> c \<longrightarrow> graphs h' g = graphs h g) \<and>
     (\<forall>n. set (InEdges (nodes h' n)) \<subseteq> set (InEdges (nodes h n)) \<and>
          set (OutEdges (nodes h' n)) \<subseteq> set (OutEdges (nodes h n)))"

lemma mutated_refl [simp]: "mutated S c h h"
  by (simp add: mutated_def)
















definition keeps :: "heap \<Rightarrow> heap \<Rightarrow> bool" where
  "keeps hc hc' \<longleftrightarrow>
     next_node hc \<le> next_node hc' \<and> next_pin hc \<le> next_pin hc' \<and>
     (\<forall>n < next_node hc. Guid (nodes hc' n) = Guid (nodes hc n) \<and>
        InPins (nodes hc' n) = InPins (nodes hc n) \<and> OutPins (nodes hc' n) = OutPins (nodes hc n)) \<and>
     (\<forall>p < next_pin hc. pins hc' p = pins hc p)"

lemma keeps_refl [simp]: "keeps h h"
  by (simp add: keeps_def)




















section \<open>Layering\<close>

text \<open>
  \<^verbatim>\<open>FFormatterNode::AnySuccessorPathDepthEqu0\<close>, \<^verbatim>\<open>GetLeavesWidthPathDepthEqu0\<close>,
  \<^verbatim>\<open>CalculateLongestPath\<close>, \<^verbatim>\<open>GetSuccessorsForNodes\<close>, \<^verbatim>\<open>GetNodesGreaterThan\<close> and
  \<^verbatim>\<open>DoLayering\<close>. A \<^verbatim>\<open>TSet\<close> is a list without duplicates in insertion order, which is
  the order its iteration and \<^verbatim>\<open>Array()\<close> give when nothing is removed. The loop
  \<^verbatim>\<open>while (true)\<close> of \<^verbatim>\<open>CalculateLongestPath\<close> is a recursive function; its termination
  proof is that every round but possibly the first gives a non-zero depth to at least one
  node of depth zero. The path length is at most the number of nodes plus one, so the
  \<^verbatim>\<open>int32\<close> counter is computed in \<open>int\<close>.
\<close>

definition SuccessorPathDepthEqu0 :: "heap \<Rightarrow> edge_ptr \<Rightarrow> bool" where
  "SuccessorPathDepthEqu0 h OutEdge = (PathDepth (nodes h (EdgeTarget h OutEdge)) = 0)"

definition AnySuccessorPathDepthEqu0 :: "heap \<Rightarrow> node_ptr \<Rightarrow> bool" where
  "AnySuccessorPathDepthEqu0 h this = list_ex (SuccessorPathDepthEqu0 h) (OutEdges (nodes h this))"

definition GetLeavesWidthPathDepthEqu0_keep :: "heap \<Rightarrow> node_ptr \<Rightarrow> bool" where
  "GetLeavesWidthPathDepthEqu0_keep h Node =
     (\<not> (PathDepth (nodes h Node) \<noteq> 0 \<or> AnySuccessorPathDepthEqu0 h Node))"

definition GetLeavesWidthPathDepthEqu0 :: "graph_ptr \<Rightarrow> heap \<Rightarrow> node_ptr list" where
  "GetLeavesWidthPathDepthEqu0 this h =
     filter (GetLeavesWidthPathDepthEqu0_keep h) (Nodes (graphs h this))"

definition set_PathDepth :: "int \<Rightarrow> node_ptr \<Rightarrow> heap \<Rightarrow> heap" where
  "set_PathDepth d leaf h = set_node leaf (\<lambda>n. n\<lparr>PathDepth := d\<rparr>) h"

definition zero_depth_count :: "graph_ptr \<Rightarrow> heap \<Rightarrow> nat" where
  "zero_depth_count this h = length (filter (\<lambda>n. PathDepth (nodes h n) = 0) (Nodes (graphs h this)))"

lemma fold_set_PathDepth_nodes:
  "nodes (fold (set_PathDepth d) ls h) n =
     (if n \<in> set ls then (nodes h n)\<lparr>PathDepth := d\<rparr> else nodes h n)"
  by (induction ls arbitrary: h) (auto simp: set_PathDepth_def set_node_def)

lemma PathDepth_fold_set_PathDepth:
  "PathDepth (nodes (fold (set_PathDepth d) ls h) n) =
     (if n \<in> set ls then d else PathDepth (nodes h n))"
  by (simp add: fold_set_PathDepth_nodes)

lemma fold_set_PathDepth_other [simp]:
  "graphs (fold (set_PathDepth d) ls h) = graphs h"
  "pins (fold (set_PathDepth d) ls h) = pins h"
  "edges (fold (set_PathDepth d) ls h) = edges h"
  by (induction ls arbitrary: h) (auto simp: set_PathDepth_def set_node_def)

lemma length_filter_less_strict:
  assumes "\<And>x. x \<in> set xs \<Longrightarrow> Q x \<Longrightarrow> P x" "x \<in> set xs" "P x" "\<not> Q x"
  shows "length (filter Q xs) < length (filter P xs)"
proof -
  have "filter Q xs = filter Q (filter P xs)"
    using assms(1) by (induction xs) auto
  moreover have "length (filter Q (filter P xs)) < length (filter P xs)"
    by (rule length_filter_less [of x]) (use assms in auto)
  ultimately show ?thesis by simp
qed

lemma zero_depth_count_decreases:
  assumes "GetLeavesWidthPathDepthEqu0 this h \<noteq> []" "d \<noteq> 0"
  shows "zero_depth_count this (fold (set_PathDepth d) (GetLeavesWidthPathDepthEqu0 this h) h)
           < zero_depth_count this h"
proof -
  obtain x where x: "x \<in> set (GetLeavesWidthPathDepthEqu0 this h)"
    using assms(1) by (cases "GetLeavesWidthPathDepthEqu0 this h") auto
  then have xin: "x \<in> set (Nodes (graphs h this))" and x0: "PathDepth (nodes h x) = 0"
    by (auto simp: GetLeavesWidthPathDepthEqu0_def GetLeavesWidthPathDepthEqu0_keep_def)
  have "length (filter (\<lambda>n. PathDepth (nodes (fold (set_PathDepth d) (GetLeavesWidthPathDepthEqu0 this h) h) n) = 0)
                 (Nodes (graphs h this)))
        < length (filter (\<lambda>n. PathDepth (nodes h n) = 0) (Nodes (graphs h this)))"
    by (rule length_filter_less_strict [of _ _ _ x])
       (use x xin x0 assms(2) in \<open>auto simp: PathDepth_fold_set_PathDepth split: if_splits\<close>)
  then show ?thesis
    by (simp add: zero_depth_count_def)
qed

function CalculateLongestPath_loop :: "graph_ptr \<Rightarrow> int \<Rightarrow> heap \<Rightarrow> int \<times> heap" where
  "CalculateLongestPath_loop this LongestPath h =
     (let Leaves = GetLeavesWidthPathDepthEqu0 this h
      in if length Leaves = 0 then (LongestPath, h)
         else CalculateLongestPath_loop this (LongestPath + 1) (fold (set_PathDepth LongestPath) Leaves h))"
  by pat_completeness auto
termination
proof (relation "measure (\<lambda>(this, L, h). 2 * zero_depth_count this h + (if L = 0 then 1 else 0))", goal_cases)
  case 1
  show ?case by simp
next
  case (2 this L h Leaves)
  show ?case
  proof (cases "L = 0")
    case True
    have "nodes (fold (set_PathDepth 0) Leaves h) = nodes h"
      using 2 by (auto simp: fold_set_PathDepth_nodes GetLeavesWidthPathDepthEqu0_def
            GetLeavesWidthPathDepthEqu0_keep_def fun_eq_iff)
    then show ?thesis using True by (simp add: zero_depth_count_def)
  next
    case False
    then show ?thesis
      using zero_depth_count_decreases [of this h L] 2 by auto
  qed
qed

declare CalculateLongestPath_loop.simps [simp del]

definition CalculateLongestPath :: "graph_ptr \<Rightarrow> heap \<Rightarrow> int \<times> heap" where
  "CalculateLongestPath this h =
     (case CalculateLongestPath_loop this 1 h of (LongestPath, h') \<Rightarrow> (LongestPath - 1, h'))"

definition TSet_Add :: "'a \<Rightarrow> 'a list \<Rightarrow> 'a list" where
  "TSet_Add x S = (if x \<in> set S then S else S @ [x])"

definition GetSuccessorsForNodes_node :: "heap \<Rightarrow> node_ptr list \<Rightarrow> node_ptr \<Rightarrow> node_ptr list" where
  "GetSuccessorsForNodes_node h Ns Node = filter (\<lambda>s. s \<notin> set Ns) (GetSuccessors h Node)"

definition GetSuccessorsForNodes :: "heap \<Rightarrow> node_ptr list \<Rightarrow> node_ptr list" where
  "GetSuccessorsForNodes h Ns = concat (map (GetSuccessorsForNodes_node h Ns) Ns)"

definition GetNodesGreaterThan_keep :: "heap \<Rightarrow> int \<Rightarrow> node_ptr list \<Rightarrow> node_ptr \<Rightarrow> bool" where
  "GetNodesGreaterThan_keep h i Excluded Node =
     (Node \<notin> set Excluded \<and> PathDepth (nodes h Node) \<ge> i)"

definition GetNodesGreaterThan :: "graph_ptr \<Rightarrow> heap \<Rightarrow> int \<Rightarrow> node_ptr list \<Rightarrow> node_ptr list" where
  "GetNodesGreaterThan this h i Excluded =
     filter (GetNodesGreaterThan_keep h i Excluded) (Nodes (graphs h this))"

definition DoLayering_node :: "heap \<Rightarrow> node_ptr list \<Rightarrow> node_ptr \<Rightarrow> node_ptr list \<Rightarrow> node_ptr list" where
  "DoLayering_node h Set Node Layer =
     (if list_all (\<lambda>Predecessor. Predecessor \<in> set Set) (GetPredecessors h Node)
      then TSet_Add Node Layer else Layer)"

definition DoLayering_layer :: "graph_ptr \<Rightarrow> heap \<Rightarrow> int \<Rightarrow> node_ptr list \<Rightarrow> node_ptr list" where
  "DoLayering_layer this h i Set =
     (let Successors = GetSuccessorsForNodes h Set;
          NodesToProcess = GetNodesGreaterThan this h i Set @ Successors
      in fold (DoLayering_node h Set) NodesToProcess [])"

definition DoLayering_iteration ::
  "graph_ptr \<Rightarrow> heap \<Rightarrow> int \<Rightarrow> node_ptr list \<times> node_ptr list list \<Rightarrow> node_ptr list \<times> node_ptr list list" where
  "DoLayering_iteration this h i acc =
     (case acc of (Set, Layers) \<Rightarrow>
        (let Layer = DoLayering_layer this h i Set
         in (fold TSet_Add Layer Set, Layers @ [Layer])))"

fun DoLayering_loop ::
  "graph_ptr \<Rightarrow> heap \<Rightarrow> nat \<Rightarrow> node_ptr list \<times> node_ptr list list \<Rightarrow> node_ptr list \<times> node_ptr list list" where
  "DoLayering_loop this h i acc =
     (if i \<noteq> 0 then DoLayering_loop this h (i - 1) (DoLayering_iteration this h (int i) acc)
      else acc)"

declare DoLayering_loop.simps [simp del]

definition DoLayering :: "graph_ptr \<Rightarrow> heap \<Rightarrow> heap" where
  "DoLayering this h =
     (let h0 = set_graph this (\<lambda>g. g\<lparr>LayeredList := []\<rparr>) h
      in case CalculateLongestPath this h0 of
           (LongestPath, h1) \<Rightarrow>
             set_graph this
               (\<lambda>g. g\<lparr>LayeredList := LayeredList g @ snd (DoLayering_loop this h1 (nat LongestPath) ([], []))\<rparr>) h1)"

section \<open>Crossing count\<close>

text \<open>
  \<^verbatim>\<open>FFormatterEdge::IsCrossing\<close>, \<^verbatim>\<open>FFormatterNode::GetEdgeLinkedToLayer\<close>,
  \<^verbatim>\<open>GetEdgeBetweenTwoLayer\<close> and \<^verbatim>\<open>CalculateCrossing\<close>. The index computation writes
  \<^verbatim>\<open>FromIndex\<close> and \<^verbatim>\<open>ToIndex\<close> into the edge records through their pointers and returns
  the pointers, so the functions pass the store along. The \<^verbatim>\<open>int32\<close> counters are
  computed in \<open>int\<close>: the model is the code as long as they stay below \<open>2^31\<close>.
\<close>

definition IsCrossing :: "FFormatterEdge \<Rightarrow> FFormatterEdge \<Rightarrow> bool" where
  "IsCrossing this Edge =
     (FromIndex this < FromIndex Edge \<and> ToIndex this > ToIndex Edge \<or>
      FromIndex this > FromIndex Edge \<and> ToIndex this < ToIndex Edge)"

definition GetEdgeLinkedToLayer_step ::
  "node_ptr \<Rightarrow> int \<Rightarrow> EEdGraphPinDirection \<Rightarrow> edge_ptr \<Rightarrow> node_ptr \<Rightarrow>
   int \<times> edge_ptr list \<times> heap \<Rightarrow> int \<times> edge_ptr list \<times> heap" where
  "GetEdgeLinkedToLayer_step this StartIndex Dir Edge NextLayerNode acc =
     (case acc of (Index, Result, h) \<Rightarrow>
        if OwningNode (pins h (To (edges h Edge))) \<noteq> NextLayerNode
        then (Index + (if Dir = EGPD_Output then GetInputPinCount h NextLayerNode
                       else GetOutputPinCount h NextLayerNode), Result, h)
        else
          (let Index' = Index + (if Dir = EGPD_Output
                                 then GetInputPinIndex h NextLayerNode (To (edges h Edge))
                                 else GetOutputPinIndex h NextLayerNode (To (edges h Edge)));
               h1 = set_edge Edge (\<lambda>e. e\<lparr>FromIndex := StartIndex +
                      (if Dir = EGPD_Output then GetOutputPinIndex h this (From (edges h Edge))
                       else GetInputPinIndex h this (From (edges h Edge)))\<rparr>) h;
               h2 = set_edge Edge (\<lambda>e. e\<lparr>ToIndex := Index'\<rparr>) h1
           in (Index', Result @ [Edge], h2)))"

definition GetEdgeLinkedToLayer_edge ::
  "node_ptr \<Rightarrow> node_ptr list \<Rightarrow> int \<Rightarrow> EEdGraphPinDirection \<Rightarrow> edge_ptr \<Rightarrow>
   edge_ptr list \<times> heap \<Rightarrow> edge_ptr list \<times> heap" where
  "GetEdgeLinkedToLayer_edge this Layer StartIndex Dir Edge acc =
     (case acc of (Result, h) \<Rightarrow>
        snd (fold (GetEdgeLinkedToLayer_step this StartIndex Dir Edge) Layer (0, Result, h)))"

definition GetEdgeLinkedToLayer ::
  "node_ptr \<Rightarrow> node_ptr list \<Rightarrow> int \<Rightarrow> EEdGraphPinDirection \<Rightarrow> heap \<Rightarrow> edge_ptr list \<times> heap" where
  "GetEdgeLinkedToLayer this Layer StartIndex Dir h =
     fold (GetEdgeLinkedToLayer_edge this Layer StartIndex Dir)
       (if Dir = EGPD_Output then OutEdges (nodes h this) else InEdges (nodes h this)) ([], h)"

definition GetEdgeBetweenTwoLayer_step ::
  "node_ptr list \<Rightarrow> EEdGraphPinDirection \<Rightarrow> node_ptr \<Rightarrow>
   int \<times> edge_ptr list \<times> heap \<Rightarrow> int \<times> edge_ptr list \<times> heap" where
  "GetEdgeBetweenTwoLayer_step Layer2 Dir NodeInLayer1 acc =
     (case acc of (Index, Result, h) \<Rightarrow>
        (case GetEdgeLinkedToLayer NodeInLayer1 Layer2 Index Dir h of
           (Linked, h') \<Rightarrow>
             (Index + (if Dir = EGPD_Output then GetOutputPinCount h' NodeInLayer1
                       else GetInputPinCount h' NodeInLayer1), Result @ Linked, h')))"

definition GetEdgeBetweenTwoLayer ::
  "node_ptr list \<Rightarrow> node_ptr list \<Rightarrow> EEdGraphPinDirection \<Rightarrow> heap \<Rightarrow> edge_ptr list \<times> heap" where
  "GetEdgeBetweenTwoLayer Layer1 Layer2 Dir h =
     snd (fold (GetEdgeBetweenTwoLayer_step Layer2 Dir) Layer1 (0, [], h))"

text \<open>
  The inner loops of \<^verbatim>\<open>CalculateCrossing\<close>: pop the last edge and compare it with every
  edge left in the array.
\<close>

function CalculateCrossing_pop :: "heap \<Rightarrow> edge_ptr list \<Rightarrow> int \<Rightarrow> int" where
  "CalculateCrossing_pop h NodeEdges CrossingValue =
     (if length NodeEdges \<noteq> 0
      then (let Edge1 = last NodeEdges;
                Rest = butlast NodeEdges
            in CalculateCrossing_pop h Rest
                 (fold (\<lambda>Edge2 c. if IsCrossing (edges h Edge1) (edges h Edge2) then c + 1 else c)
                    Rest CrossingValue))
      else CrossingValue)"
  by pat_completeness auto
termination
  by (relation "measure (\<lambda>(h, es, c). length es)") auto

declare CalculateCrossing_pop.simps [simp del]

fun CalculateCrossing_layers :: "node_ptr list list \<Rightarrow> int \<Rightarrow> heap \<Rightarrow> int \<times> heap" where
  "CalculateCrossing_layers (Layer # NextLayer # Rest) CrossingValue h =
     (case GetEdgeBetweenTwoLayer Layer NextLayer EGPD_Output h of
        (NodeEdges, h') \<Rightarrow>
          CalculateCrossing_layers (NextLayer # Rest)
            (CalculateCrossing_pop h' NodeEdges CrossingValue) h')"
| "CalculateCrossing_layers Order CrossingValue h = (CrossingValue, h)"

definition CalculateCrossing :: "node_ptr list list \<Rightarrow> heap \<Rightarrow> int \<times> heap" where
  "CalculateCrossing Order h = CalculateCrossing_layers Order 0 h"

section \<open>Ordering sweep\<close>

text \<open>
  \<^verbatim>\<open>FFormatterNode::CalcBarycenter\<close>, \<^verbatim>\<open>FFormatterGraph::SortInLayer\<close> and
  \<^verbatim>\<open>FFormatterGraph::DoOrderingSweep\<close>. The barycenter is a \<^verbatim>\<open>float\<close> in the source and an
  exact quotient here. \<^verbatim>\<open>TArray::Sort\<close> belongs to the engine and is not stable; it is
  the parameter \<open>Sort\<close> of the model, given the comparison and the array, and nothing is
  assumed about it. \<^verbatim>\<open>MaxOrderingIterations\<close> is a setting and a parameter here.
\<close>

definition CalcBarycenter ::
  "node_ptr \<Rightarrow> node_ptr list \<Rightarrow> int \<Rightarrow> EEdGraphPinDirection \<Rightarrow> heap \<Rightarrow> real \<times> heap" where
  "CalcBarycenter this Layer StartIndex Dir h =
     (case GetEdgeLinkedToLayer this Layer StartIndex Dir h of
        (Edges, h') \<Rightarrow>
          if length Edges = 0 then (0, h')
          else (real_of_int (fold (\<lambda>Edge Sum. Sum + ToIndex (edges h' Edge)) Edges 0)
                  / real (length Edges), h'))"

definition SortInLayer_node ::
  "node_ptr list \<Rightarrow> EEdGraphPinDirection \<Rightarrow> node_ptr \<Rightarrow> int \<times> heap \<Rightarrow> int \<times> heap" where
  "SortInLayer_node FixedLayer Dir Node acc =
     (case acc of (StartIndex, h) \<Rightarrow>
        (case CalcBarycenter Node FixedLayer StartIndex Dir h of
           (v, h') \<Rightarrow>
             (let h'' = set_node Node (\<lambda>n. n\<lparr>OrderValue := v\<rparr>) h'
              in (StartIndex + (if Dir = EGPD_Output then GetOutputPinCount h'' Node
                                else GetInputPinCount h'' Node), h''))))"

definition SortInLayer_layer ::
  "((node_ptr \<Rightarrow> node_ptr \<Rightarrow> bool) \<Rightarrow> node_ptr list \<Rightarrow> node_ptr list) \<Rightarrow>
   EEdGraphPinDirection \<Rightarrow> nat \<Rightarrow> node_ptr list list \<times> heap \<Rightarrow> node_ptr list list \<times> heap" where
  "SortInLayer_layer Sort Dir i acc =
     (case acc of (Order, h) \<Rightarrow>
        (let FixedLayer = Order ! (if Dir = EGPD_Output then i + 1 else i - 1);
             FreeLayer = Order ! i;
             h' = snd (fold (SortInLayer_node FixedLayer Dir) FreeLayer (0, h))
         in (Order[i := Sort (\<lambda>A B. OrderValue (nodes h' A) < OrderValue (nodes h' B)) FreeLayer], h')))"

definition SortInLayer ::
  "((node_ptr \<Rightarrow> node_ptr \<Rightarrow> bool) \<Rightarrow> node_ptr list \<Rightarrow> node_ptr list) \<Rightarrow>
   node_ptr list list \<Rightarrow> EEdGraphPinDirection \<Rightarrow> heap \<Rightarrow> node_ptr list list \<times> heap" where
  "SortInLayer Sort Order Dir h =
     (if length Order < 2 then (Order, h)
      else fold (SortInLayer_layer Sort Dir)
             (if Dir = EGPD_Output then rev [0..<length Order - 1] else [1..<length Order])
             (Order, h))"

text \<open>
  The loop of \<^verbatim>\<open>DoOrderingSweep\<close> after \<open>k\<close> iterations: the best ordering so far, the
  current ordering, and the store.
\<close>

definition DoOrderingSweep_iteration ::
  "((node_ptr \<Rightarrow> node_ptr \<Rightarrow> bool) \<Rightarrow> node_ptr list \<Rightarrow> node_ptr list) \<Rightarrow> nat \<Rightarrow>
   node_ptr list list \<times> node_ptr list list \<times> heap \<Rightarrow> node_ptr list list \<times> node_ptr list list \<times> heap" where
  "DoOrderingSweep_iteration Sort i acc =
     (case acc of
        (Best, Order, h0) \<Rightarrow>
          (case SortInLayer Sort Order (if i mod 2 = 0 then EGPD_Input else EGPD_Output) h0 of
             (Order', h1) \<Rightarrow>
               (case CalculateCrossing Order' h1 of
                  (c1, h2) \<Rightarrow>
                    (case CalculateCrossing Best h2 of
                       (c2, h3) \<Rightarrow> (if c1 < c2 then Order' else Best, Order', h3)))))"

primrec DoOrderingSweep_loop ::
  "((node_ptr \<Rightarrow> node_ptr \<Rightarrow> bool) \<Rightarrow> node_ptr list \<Rightarrow> node_ptr list) \<Rightarrow>
   node_ptr list list \<Rightarrow> heap \<Rightarrow> nat \<Rightarrow> node_ptr list list \<times> node_ptr list list \<times> heap" where
  "DoOrderingSweep_loop Sort L h 0 = (L, L, h)"
| "DoOrderingSweep_loop Sort L h (Suc i) =
     DoOrderingSweep_iteration Sort i (DoOrderingSweep_loop Sort L h i)"

definition DoOrderingSweep ::
  "((node_ptr \<Rightarrow> node_ptr \<Rightarrow> bool) \<Rightarrow> node_ptr list \<Rightarrow> node_ptr list) \<Rightarrow>
   int \<Rightarrow> graph_ptr \<Rightarrow> heap \<Rightarrow> heap" where
  "DoOrderingSweep Sort MaxOrderingIterations this h =
     (case DoOrderingSweep_loop Sort (LayeredList (graphs h this)) h (nat MaxOrderingIterations) of
        (Best, Order, h') \<Rightarrow> set_graph this (\<lambda>g. g\<lparr>LayeredList := Best\<rparr>) h')"

section \<open>The pop loop\<close>

text \<open>
  The two nested loops of \<^verbatim>\<open>CalculateCrossing\<close> compare every two positions of the edge
  array once: the value added to the counter is the number of position pairs whose edge
  records satisfy \<^verbatim>\<open>IsCrossing\<close>.
\<close>

definition index_orders_inverted :: "FFormatterEdge \<Rightarrow> FFormatterEdge \<Rightarrow> bool" where
  "index_orders_inverted e1 e2 =
     ((FromIndex e1 < FromIndex e2 \<and> ToIndex e1 > ToIndex e2) \<or>
      (FromIndex e1 > FromIndex e2 \<and> ToIndex e1 < ToIndex e2))"

fun inverted_positions :: "FFormatterEdge list \<Rightarrow> int" where
  "inverted_positions [] = 0"
| "inverted_positions (e # es) = int (length (filter (index_orders_inverted e) es)) + inverted_positions es"

lemma fold_count:
  "fold (\<lambda>x c. if P x then c + 1 else c) xs (cv :: int) = cv + int (length (filter P xs))"
  by (induction xs arbitrary: cv) auto

lemma inverted_positions_snoc:
  "inverted_positions (es @ [x]) =
     inverted_positions es + int (length (filter (\<lambda>e. index_orders_inverted e x) es))"
  by (induction es) auto

lemma IsCrossing_sym: "IsCrossing a b = index_orders_inverted b a"
  by (auto simp: IsCrossing_def index_orders_inverted_def)

lemma CalculateCrossing_pop_positions:
  "CalculateCrossing_pop h es cv = cv + inverted_positions (map (edges h) es)"
proof (induction es arbitrary: cv rule: rev_induct)
  case Nil
  show ?case by (subst CalculateCrossing_pop.simps) simp
next
  case (snoc x xs)
  have "CalculateCrossing_pop h (xs @ [x]) cv =
        CalculateCrossing_pop h xs
          (fold (\<lambda>Edge2 c. if IsCrossing (edges h x) (edges h Edge2) then c + 1 else c) xs cv)"
    by (subst CalculateCrossing_pop.simps) (simp add: Let_def)
  also have "\<dots> = cv + int (length (filter (\<lambda>e. IsCrossing (edges h x) (edges h e)) xs))
                  + inverted_positions (map (edges h) xs)"
    by (simp add: snoc.IH fold_count)
  also have "\<dots> = cv + inverted_positions (map (edges h) (xs @ [x]))"
    by (simp add: inverted_positions_snoc IsCrossing_sym filter_map o_def)
  finally show ?case .
qed

section \<open>The ordering sweep keeps the best ordering\<close>

text \<open>
  The crossing computation and the sorting write only the index members of edge records
  and the order value of nodes. \<open>same_structure\<close> relates two stores that agree on
  everything the crossing computation reads before writing it; the count of an ordering is
  the same in all of them.
\<close>

definition same_structure :: "heap \<Rightarrow> heap \<Rightarrow> bool" where
  "same_structure h h' \<longleftrightarrow>
     pins h' = pins h \<and>
     (\<forall>n. InPins (nodes h' n) = InPins (nodes h n) \<and> OutPins (nodes h' n) = OutPins (nodes h n) \<and>
          InEdges (nodes h' n) = InEdges (nodes h n) \<and> OutEdges (nodes h' n) = OutEdges (nodes h n)) \<and>
     (\<forall>e. From (edges h' e) = From (edges h e) \<and> To (edges h' e) = To (edges h e))"

lemma same_structure_refl [simp]: "same_structure h h"
  by (simp add: same_structure_def)

lemma same_structure_sym: "same_structure h h' \<Longrightarrow> same_structure h' h"
  by (simp add: same_structure_def)

lemma same_structure_trans: "same_structure h h' \<Longrightarrow> same_structure h' h'' \<Longrightarrow> same_structure h h''"
  by (simp add: same_structure_def)

definition run_rel ::
  "edge_ptr set \<Rightarrow> int \<times> edge_ptr list \<times> heap \<Rightarrow> int \<times> edge_ptr list \<times> heap \<Rightarrow> bool" where
  "run_rel W a b \<longleftrightarrow>
     fst a = fst b \<and> fst (snd a) = fst (snd b) \<and> same_structure (snd (snd a)) (snd (snd b)) \<and>
     (\<forall>e \<in> W \<union> set (fst (snd a)). edges (snd (snd b)) e = edges (snd (snd a)) e)"

lemma fold_rel:
  assumes "\<And>x a b. R a b \<Longrightarrow> R (f x a) (g x b)" "R a b"
  shows "R (fold f xs a) (fold g xs b)"
  using assms(2) by (induction xs arbitrary: a b) (auto intro: assms(1))

lemma fold_inv:
  assumes "\<And>x a. P a \<Longrightarrow> P (f x a)" "P a"
  shows "P (fold f xs a)"
  using assms(2) by (induction xs arbitrary: a) (auto intro: assms(1))

lemma pin_queries_same:
  assumes "same_structure h h'"
  shows "GetInputPinCount h' n = GetInputPinCount h n" "GetOutputPinCount h' n = GetOutputPinCount h n"
    "GetInputPinIndex h' n p = GetInputPinIndex h n p" "GetOutputPinIndex h' n p = GetOutputPinIndex h n p"
  using assms
  by (simp_all add: same_structure_def GetInputPinCount_def GetOutputPinCount_def
        GetInputPinIndex_def GetOutputPinIndex_def)

lemma step_rel:
  assumes "run_rel W a b"
  shows "run_rel W (GetEdgeLinkedToLayer_step this S Dir Edge N a) (GetEdgeLinkedToLayer_step this S Dir Edge N b)"
proof -
  obtain I R h where a: "a = (I, R, h)" by (cases a) auto
  obtain I' R' h' where b: "b = (I', R', h')" by (cases b) auto
  from assms a b have eq: "I' = I" "R' = R" and ss: "same_structure h h'"
    and ag: "\<forall>e \<in> W \<union> set R. edges h' e = edges h e"
    by (auto simp: run_rel_def)
  have pe: "pins h' = pins h" "\<And>e. From (edges h' e) = From (edges h e)" "\<And>e. To (edges h' e) = To (edges h e)"
    using ss by (auto simp: same_structure_def)
  show ?thesis
    unfolding a b eq
    using ss ag pe pin_queries_same [OF ss]
    by (auto simp: GetEdgeLinkedToLayer_step_def run_rel_def Let_def set_edge_def same_structure_def)
qed

lemma step_same:
  assumes "same_structure h0 (snd (snd a))"
  shows "same_structure h0 (snd (snd (GetEdgeLinkedToLayer_step this S Dir Edge N a)))"
  using assms
  by (cases a) (auto simp: GetEdgeLinkedToLayer_step_def Let_def set_edge_def same_structure_def)

lemma edge_rel:
  assumes "run_rel W (i, a) (i, b)"
  shows "run_rel W (j, GetEdgeLinkedToLayer_edge this Layer S Dir Edge a)
                   (j, GetEdgeLinkedToLayer_edge this Layer S Dir Edge b)"
proof -
  obtain R h where a: "a = (R, h)" by (cases a) auto
  obtain R' h' where b: "b = (R', h')" by (cases b) auto
  have "run_rel W (0, R, h) (0, R', h')"
    using assms a b by (simp add: run_rel_def)
  then have "run_rel W (fold (GetEdgeLinkedToLayer_step this S Dir Edge) Layer (0, R, h))
                       (fold (GetEdgeLinkedToLayer_step this S Dir Edge) Layer (0, R', h'))"
    by (rule fold_rel [rotated]) (rule step_rel)
  then show ?thesis
    by (simp add: a b GetEdgeLinkedToLayer_edge_def run_rel_def)
qed

lemma edge_same:
  assumes "same_structure h0 (snd a)"
  shows "same_structure h0 (snd (GetEdgeLinkedToLayer_edge this Layer S Dir Edge a))"
proof -
  obtain R h where a: "a = (R, h)" by (cases a) auto
  have "same_structure h0 (snd (snd (fold (GetEdgeLinkedToLayer_step this S Dir Edge) Layer (0, R, h))))"
    by (rule fold_inv [where P = "\<lambda>a. same_structure h0 (snd (snd a))"])
       (use assms a in \<open>auto intro: step_same\<close>)
  then show ?thesis by (simp add: a GetEdgeLinkedToLayer_edge_def)
qed

lemma GetEdgeLinkedToLayer_rel:
  assumes "same_structure h h'" "\<forall>e \<in> W. edges h' e = edges h e"
  shows "run_rel W (i, GetEdgeLinkedToLayer this Layer S Dir h) (i, GetEdgeLinkedToLayer this Layer S Dir h')"
proof -
  let ?es = "if Dir = EGPD_Output then OutEdges (nodes h this) else InEdges (nodes h this)"
  have es: "(if Dir = EGPD_Output then OutEdges (nodes h' this) else InEdges (nodes h' this)) = ?es"
    using assms(1) by (simp add: same_structure_def)
  have "run_rel W (i, [], h) (i, [], h')"
    using assms by (simp add: run_rel_def)
  then have "run_rel W (i, fold (GetEdgeLinkedToLayer_edge this Layer S Dir) ?es ([], h))
                       (i, fold (GetEdgeLinkedToLayer_edge this Layer S Dir) ?es ([], h'))"
    by (rule fold_rel [where R = "\<lambda>a b. run_rel W (i, a) (i, b)", rotated]) (rule edge_rel)
  then show ?thesis
    by (simp add: GetEdgeLinkedToLayer_def es)
qed

lemma GetEdgeLinkedToLayer_same:
  assumes "same_structure h0 h"
  shows "same_structure h0 (snd (GetEdgeLinkedToLayer this Layer S Dir h))"
  unfolding GetEdgeLinkedToLayer_def
  by (rule fold_inv [where P = "\<lambda>a. same_structure h0 (snd a)"])
     (use assms in \<open>auto intro: edge_same\<close>)

lemma between_step_rel:
  assumes "run_rel W a b"
  shows "run_rel W (GetEdgeBetweenTwoLayer_step Layer2 Dir N a) (GetEdgeBetweenTwoLayer_step Layer2 Dir N b)"
proof -
  obtain I R h where a: "a = (I, R, h)" by (cases a) auto
  obtain I' R' h' where b: "b = (I', R', h')" by (cases b) auto
  from assms a b have eq: "I' = I" "R' = R" and ss: "same_structure h h'"
    and ag: "\<forall>e \<in> W \<union> set R. edges h' e = edges h e"
    by (auto simp: run_rel_def)
  obtain L h1 where r1: "GetEdgeLinkedToLayer N Layer2 I Dir h = (L, h1)"
    by (cases "GetEdgeLinkedToLayer N Layer2 I Dir h") auto
  obtain L' h1' where r2: "GetEdgeLinkedToLayer N Layer2 I Dir h' = (L', h1')"
    by (cases "GetEdgeLinkedToLayer N Layer2 I Dir h'") auto
  from GetEdgeLinkedToLayer_rel [OF ss ag, of 0 N Layer2 I Dir] r1 r2
  have L: "L' = L" and ss1: "same_structure h1 h1'"
    and ag1: "\<forall>e \<in> (W \<union> set R) \<union> set L. edges h1' e = edges h1 e"
    by (auto simp: run_rel_def)
  show ?thesis
    unfolding a b eq
    using r1 r2 L ss1 ag1 pin_queries_same [OF ss1]
    by (auto simp: GetEdgeBetweenTwoLayer_step_def run_rel_def)
qed

lemma between_step_same:
  assumes "same_structure h0 (snd (snd a))"
  shows "same_structure h0 (snd (snd (GetEdgeBetweenTwoLayer_step Layer2 Dir N a)))"
  using assms GetEdgeLinkedToLayer_same [of h0 "snd (snd a)" N Layer2 "fst a" Dir]
  by (cases a) (auto simp: GetEdgeBetweenTwoLayer_step_def split: prod.splits)

lemma GetEdgeBetweenTwoLayer_rel:
  assumes "same_structure h h'"
  shows "fst (GetEdgeBetweenTwoLayer L1 L2 Dir h') = fst (GetEdgeBetweenTwoLayer L1 L2 Dir h) \<and>
         same_structure (snd (GetEdgeBetweenTwoLayer L1 L2 Dir h)) (snd (GetEdgeBetweenTwoLayer L1 L2 Dir h')) \<and>
         (\<forall>e \<in> set (fst (GetEdgeBetweenTwoLayer L1 L2 Dir h)).
            edges (snd (GetEdgeBetweenTwoLayer L1 L2 Dir h')) e = edges (snd (GetEdgeBetweenTwoLayer L1 L2 Dir h)) e)"
proof -
  have "run_rel {} (0, [], h) (0, [], h')"
    using assms by (simp add: run_rel_def)
  then have "run_rel {} (fold (GetEdgeBetweenTwoLayer_step L2 Dir) L1 (0, [], h))
                        (fold (GetEdgeBetweenTwoLayer_step L2 Dir) L1 (0, [], h'))"
    by (rule fold_rel [rotated]) (rule between_step_rel)
  then show ?thesis
    by (simp add: GetEdgeBetweenTwoLayer_def run_rel_def)
qed

lemma GetEdgeBetweenTwoLayer_same:
  assumes "same_structure h0 h"
  shows "same_structure h0 (snd (GetEdgeBetweenTwoLayer L1 L2 Dir h))"
  unfolding GetEdgeBetweenTwoLayer_def
  by (rule fold_inv [where P = "\<lambda>a. same_structure h0 (snd (snd a))"])
     (use assms in \<open>auto intro: between_step_same\<close>)

lemma CalculateCrossing_pop_cong:
  "\<forall>e \<in> set es. edges h' e = edges h e \<Longrightarrow> CalculateCrossing_pop h' es cv = CalculateCrossing_pop h es cv"
proof (induction es arbitrary: cv rule: rev_induct)
  case Nil
  show ?case by (simp add: CalculateCrossing_pop.simps)
next
  case (snoc x xs)
  have f: "fold (\<lambda>Edge2 c. if IsCrossing (edges h' x) (edges h' Edge2) then c + 1 else c) xs cv =
        fold (\<lambda>Edge2 c. if IsCrossing (edges h x) (edges h Edge2) then c + 1 else c) xs cv"
    using snoc.prems by (intro fold_cong) auto
  show ?case
    using snoc f
    by (subst CalculateCrossing_pop.simps, subst (2) CalculateCrossing_pop.simps) (simp add: Let_def)
qed

lemma CalculateCrossing_layers_rel:
  "same_structure h h' \<Longrightarrow>
     fst (CalculateCrossing_layers Order cv h') = fst (CalculateCrossing_layers Order cv h)"
proof (induction Order cv h arbitrary: h' rule: CalculateCrossing_layers.induct)
  case (1 Layer NextLayer Rest cv h)
  obtain es h1 where r1: "GetEdgeBetweenTwoLayer Layer NextLayer EGPD_Output h = (es, h1)"
    by (cases "GetEdgeBetweenTwoLayer Layer NextLayer EGPD_Output h") auto
  obtain es' h1' where r2: "GetEdgeBetweenTwoLayer Layer NextLayer EGPD_Output h' = (es', h1')"
    by (cases "GetEdgeBetweenTwoLayer Layer NextLayer EGPD_Output h'") auto
  from GetEdgeBetweenTwoLayer_rel [OF "1.prems", of Layer NextLayer EGPD_Output] r1 r2
  have es: "es' = es" and ss: "same_structure h1 h1'" and ag: "\<forall>e \<in> set es. edges h1' e = edges h1 e"
    by auto
  have "fst (CalculateCrossing_layers (NextLayer # Rest) (CalculateCrossing_pop h1 es cv) h1') =
        fst (CalculateCrossing_layers (NextLayer # Rest) (CalculateCrossing_pop h1 es cv) h1)"
    using "1.IH" [OF r1 [symmetric] ss] by simp
  then show ?case
    using r1 r2 es CalculateCrossing_pop_cong [OF ag] by simp
qed simp_all

lemma CalculateCrossing_layers_same:
  "same_structure h0 h \<Longrightarrow> same_structure h0 (snd (CalculateCrossing_layers Order cv h))"
proof (induction Order cv h rule: CalculateCrossing_layers.induct)
  case (1 Layer NextLayer Rest cv h)
  then show ?case
    using GetEdgeBetweenTwoLayer_same [OF "1.prems", of Layer NextLayer EGPD_Output]
    by (auto split: prod.splits)
qed simp_all

lemma CalculateCrossing_same_structure:
  "same_structure h h' \<Longrightarrow> fst (CalculateCrossing Order h') = fst (CalculateCrossing Order h)"
  by (simp add: CalculateCrossing_def CalculateCrossing_layers_rel)

lemma CalculateCrossing_keeps_structure:
  "same_structure h0 h \<Longrightarrow> same_structure h0 (snd (CalculateCrossing Order h))"
  by (simp add: CalculateCrossing_def CalculateCrossing_layers_same)

lemma CalcBarycenter_same:
  "same_structure h0 h \<Longrightarrow> same_structure h0 (snd (CalcBarycenter this Layer S Dir h))"
  using GetEdgeLinkedToLayer_same [of h0 h this Layer S Dir]
  by (auto simp: CalcBarycenter_def split: prod.splits)

lemma set_OrderValue_same:
  "same_structure h0 h \<Longrightarrow> same_structure h0 (set_node n (\<lambda>n. n\<lparr>OrderValue := v\<rparr>) h)"
  by (simp add: same_structure_def set_node_def)

lemma SortInLayer_node_same:
  "same_structure h0 (snd a) \<Longrightarrow> same_structure h0 (snd (SortInLayer_node Fixed Dir Node a))"
  using CalcBarycenter_same [of h0 "snd a" Node Fixed "fst a" Dir]
  by (cases a) (auto simp: SortInLayer_node_def Let_def split: prod.splits intro: set_OrderValue_same)

lemma SortInLayer_layer_same:
  assumes "same_structure h0 (snd a)"
  shows "same_structure h0 (snd (SortInLayer_layer Sort Dir i a))"
proof -
  obtain Order h where a: "a = (Order, h)" by (cases a) auto
  have "same_structure h0 (snd (fold (SortInLayer_node (Order ! (if Dir = EGPD_Output then i + 1 else i - 1)) Dir)
          (Order ! i) (0, h)))"
    by (rule fold_inv [where P = "\<lambda>a. same_structure h0 (snd a)"])
       (use assms a in \<open>auto intro: SortInLayer_node_same\<close>)
  then show ?thesis
    by (simp add: a SortInLayer_layer_def Let_def)
qed

lemma SortInLayer_same:
  assumes "same_structure h0 h"
  shows "same_structure h0 (snd (SortInLayer Sort Order Dir h))"
proof (cases "length Order < 2")
  case True
  then show ?thesis using assms by (simp add: SortInLayer_def)
next
  case False
  have "same_structure h0 (snd (fold (SortInLayer_layer Sort Dir)
          (if Dir = EGPD_Output then rev [0..<length Order - 1] else [1..<length Order]) (Order, h)))"
    by (rule fold_inv [where P = "\<lambda>a. same_structure h0 (snd a)"])
       (use assms in \<open>auto intro: SortInLayer_layer_same\<close>)
  with False show ?thesis by (simp add: SortInLayer_def)
qed

text \<open>
  The orderings of a sweep: the initial one and the current ordering after each of the
  first \<open>k\<close> passes.
\<close>

definition DoOrderingSweep_orders ::
  "((node_ptr \<Rightarrow> node_ptr \<Rightarrow> bool) \<Rightarrow> node_ptr list \<Rightarrow> node_ptr list) \<Rightarrow>
   node_ptr list list \<Rightarrow> heap \<Rightarrow> nat \<Rightarrow> node_ptr list list list" where
  "DoOrderingSweep_orders Sort L h k = map (\<lambda>j. fst (snd (DoOrderingSweep_loop Sort L h j))) [0..<Suc k]"

lemma DoOrderingSweep_iteration_eq:
  assumes "SortInLayer Sort Ord (if i mod 2 = 0 then EGPD_Input else EGPD_Output) h0 = (Ord', h1)"
    "CalculateCrossing Ord' h1 = (c1, h2)" "CalculateCrossing B h2 = (c2, h3)"
  shows "DoOrderingSweep_iteration Sort i (B, Ord, h0) = (if c1 < c2 then Ord' else B, Ord', h3)"
  using assms by (simp add: DoOrderingSweep_iteration_def)

lemma DoOrderingSweep_iteration_same:
  assumes "same_structure h (snd (snd a))"
  shows "same_structure h (snd (snd (DoOrderingSweep_iteration Sort i a)))"
proof -
  obtain B Ord h0 where a: "a = (B, Ord, h0)" by (cases a) auto
  have s0: "same_structure h h0" using assms a by simp
  define d where "d = (if i mod 2 = 0 then EGPD_Input else EGPD_Output)"
  obtain Ord' h1 where so: "SortInLayer Sort Ord d h0 = (Ord', h1)"
    by (cases "SortInLayer Sort Ord d h0") auto
  have s1: "same_structure h h1"
    using SortInLayer_same [OF s0, of Sort Ord d] so by simp
  obtain c1 h2 where c1: "CalculateCrossing Ord' h1 = (c1, h2)"
    by (cases "CalculateCrossing Ord' h1") auto
  have s2: "same_structure h h2"
    using CalculateCrossing_keeps_structure [OF s1, of Ord'] c1 by simp
  obtain c2 h3 where c2: "CalculateCrossing B h2 = (c2, h3)"
    by (cases "CalculateCrossing B h2") auto
  have s3: "same_structure h h3"
    using CalculateCrossing_keeps_structure [OF s2, of B] c2 by simp
  show ?thesis
    using DoOrderingSweep_iteration_eq [OF so [unfolded d_def] c1 c2] s3 a by simp
qed

lemma DoOrderingSweep_loop_same:
  "same_structure h (snd (snd (DoOrderingSweep_loop Sort L h k)))"
  by (induction k) (auto intro: DoOrderingSweep_iteration_same)

lemma DoOrderingSweep_loop_best:
  "fst (CalculateCrossing (fst (DoOrderingSweep_loop Sort L h k)) h) =
     Min (set (map (\<lambda>Order. fst (CalculateCrossing Order h)) (DoOrderingSweep_orders Sort L h k)))"
proof (induction k)
  case 0
  show ?case by (simp add: DoOrderingSweep_orders_def)
next
  case (Suc k)
  let ?cc = "\<lambda>Order. fst (CalculateCrossing Order h)"
  obtain B Ord h0 where st: "DoOrderingSweep_loop Sort L h k = (B, Ord, h0)"
    by (cases "DoOrderingSweep_loop Sort L h k") auto
  have s0: "same_structure h h0"
    using DoOrderingSweep_loop_same [of h Sort L k] st by simp
  define d where "d = (if k mod 2 = 0 then EGPD_Input else EGPD_Output)"
  obtain Ord' h1 where so: "SortInLayer Sort Ord d h0 = (Ord', h1)"
    by (cases "SortInLayer Sort Ord d h0") auto
  have s1: "same_structure h h1"
    using SortInLayer_same [OF s0, of Sort Ord d] so by simp
  obtain c1 h2 where c1: "CalculateCrossing Ord' h1 = (c1, h2)"
    by (cases "CalculateCrossing Ord' h1") auto
  have s2: "same_structure h h2"
    using CalculateCrossing_keeps_structure [OF s1, of Ord'] c1 by simp
  obtain c2 h3 where c2: "CalculateCrossing B h2 = (c2, h3)"
    by (cases "CalculateCrossing B h2") auto
  have v1: "c1 = ?cc Ord'"
    using CalculateCrossing_same_structure [OF s1, of Ord'] c1 by simp
  have v2: "c2 = ?cc B"
    using CalculateCrossing_same_structure [OF s2, of B] c2 by simp
  have next_state: "DoOrderingSweep_loop Sort L h (Suc k) = (if c1 < c2 then Ord' else B, Ord', h3)"
    using DoOrderingSweep_iteration_eq [OF so [unfolded d_def] c1 c2] st by simp
  have orders: "DoOrderingSweep_orders Sort L h (Suc k) = DoOrderingSweep_orders Sort L h k @ [Ord']"
    using next_state by (simp add: DoOrderingSweep_orders_def)
  have ne: "set (map ?cc (DoOrderingSweep_orders Sort L h k)) \<noteq> {}"
    by (simp add: DoOrderingSweep_orders_def)
  have IH: "?cc B = Min (set (map ?cc (DoOrderingSweep_orders Sort L h k)))"
    using Suc st by simp
  have "Min (set (map ?cc (DoOrderingSweep_orders Sort L h (Suc k)))) =
        min (?cc Ord') (Min (set (map ?cc (DoOrderingSweep_orders Sort L h k))))"
    using ne by (simp add: orders del: set_map)
  also have "\<dots> = min (?cc Ord') (?cc B)" by (simp only: IH)
  also have "\<dots> = ?cc (if c1 < c2 then Ord' else B)"
    by (simp add: v1 v2 min_def)
  finally show ?case by (simp only: next_state fst_conv)
qed

lemma set_LayeredList_same: "same_structure h (set_graph this f h)"
  by (simp add: same_structure_def set_graph_def)

text \<open>
  C4. For every layered list and every iteration cap, the crossing count of the layered
  list stored by \<^verbatim>\<open>DoOrderingSweep\<close> is the minimum of the crossing counts of the initial
  ordering and of the orderings produced by the successive passes, and it is at most the
  crossing count of the initial ordering.
\<close>

theorem DoOrderingSweep_keeps_minimum:
  "fst (CalculateCrossing (LayeredList (graphs (DoOrderingSweep Sort MaxOrderingIterations this h) this))
          (DoOrderingSweep Sort MaxOrderingIterations this h)) =
     Min (set (map (\<lambda>Order. fst (CalculateCrossing Order (DoOrderingSweep Sort MaxOrderingIterations this h)))
                 (DoOrderingSweep_orders Sort (LayeredList (graphs h this)) h (nat MaxOrderingIterations)))) \<and>
   fst (CalculateCrossing (LayeredList (graphs (DoOrderingSweep Sort MaxOrderingIterations this h) this))
          (DoOrderingSweep Sort MaxOrderingIterations this h)) \<le>
     fst (CalculateCrossing (LayeredList (graphs h this)) h)"
proof -
  let ?L = "LayeredList (graphs h this)"
  let ?k = "nat MaxOrderingIterations"
  let ?h' = "DoOrderingSweep Sort MaxOrderingIterations this h"
  obtain B Ord hk where st: "DoOrderingSweep_loop Sort ?L h ?k = (B, Ord, hk)"
    by (cases "DoOrderingSweep_loop Sort ?L h ?k") auto
  have h': "?h' = set_graph this (\<lambda>g. g\<lparr>LayeredList := B\<rparr>) hk"
    by (simp add: DoOrderingSweep_def st)
  have LL: "LayeredList (graphs ?h' this) = B"
    by (simp add: h' set_graph_def)
  have "same_structure h hk"
    using DoOrderingSweep_loop_same [of h Sort ?L ?k] st by simp
  then have ss: "same_structure h ?h'"
    unfolding h' by (rule same_structure_trans) (rule set_LayeredList_same)
  have cc: "\<And>Order. fst (CalculateCrossing Order ?h') = fst (CalculateCrossing Order h)"
    by (rule CalculateCrossing_same_structure [OF ss])
  have best: "fst (CalculateCrossing B h) =
      Min (set (map (\<lambda>Order. fst (CalculateCrossing Order h)) (DoOrderingSweep_orders Sort ?L h ?k)))"
    using DoOrderingSweep_loop_best [of Sort ?L h ?k] st by simp
  have "?L \<in> set (DoOrderingSweep_orders Sort ?L h ?k)"
    by (simp add: DoOrderingSweep_orders_def upt_conv_Cons del: upt_Suc)
  then have "Min (set (map (\<lambda>Order. fst (CalculateCrossing Order h)) (DoOrderingSweep_orders Sort ?L h ?k)))
        \<le> fst (CalculateCrossing ?L h)"
    by (intro Min_le) auto
  with best show ?thesis
    by (simp add: LL cc)
qed

section \<open>The crossing count is the brute-force pair count\<close>

text \<open>
  The reference count follows the specification's words and reads nothing the code
  computes. The edges between two adjacent ranks are the out-edge records of the nodes of
  the upper rank whose head node is in the lower rank. The index of an edge's tail is the
  position of its tail pin in the sequence of the output pins of the upper rank, and the
  index of its head is the position of its head pin in the sequence of the input pins of
  the lower rank (counting by pin position, not node position). Two edges cross when these
  orders are inverted, and the brute-force count is the number of unordered pairs of edges
  between the two ranks that cross, summed over the adjacent ranks.
\<close>

definition pin_position :: "pin_ptr list \<Rightarrow> pin_ptr \<Rightarrow> int" where
  "pin_position ps p = int (length (takeWhile (\<lambda>q. q \<noteq> p) ps))"

definition rank_out_pins :: "heap \<Rightarrow> node_ptr list \<Rightarrow> pin_ptr list" where
  "rank_out_pins h Layer = concat (map (\<lambda>n. OutPins (nodes h n)) Layer)"

definition rank_in_pins :: "heap \<Rightarrow> node_ptr list \<Rightarrow> pin_ptr list" where
  "rank_in_pins h Layer = concat (map (\<lambda>n. InPins (nodes h n)) Layer)"

definition from_position :: "heap \<Rightarrow> node_ptr list \<Rightarrow> edge_ptr \<Rightarrow> int" where
  "from_position h Layer e = pin_position (rank_out_pins h Layer) (From (edges h e))"

definition to_position :: "heap \<Rightarrow> node_ptr list \<Rightarrow> edge_ptr \<Rightarrow> int" where
  "to_position h NextLayer e = pin_position (rank_in_pins h NextLayer) (To (edges h e))"

definition rank_out_edges :: "heap \<Rightarrow> node_ptr list \<Rightarrow> edge_ptr list" where
  "rank_out_edges h Layer = concat (map (\<lambda>n. OutEdges (nodes h n)) Layer)"

definition edges_between :: "heap \<Rightarrow> node_ptr list \<Rightarrow> node_ptr list \<Rightarrow> edge_ptr list" where
  "edges_between h Layer NextLayer =
     filter (\<lambda>e. EdgeTarget h e \<in> set NextLayer) (rank_out_edges h Layer)"

definition edges_cross :: "heap \<Rightarrow> node_ptr list \<Rightarrow> node_ptr list \<Rightarrow> edge_ptr \<Rightarrow> edge_ptr \<Rightarrow> bool" where
  "edges_cross h Layer NextLayer e1 e2 =
     ((from_position h Layer e1 < from_position h Layer e2 \<and>
       to_position h NextLayer e1 > to_position h NextLayer e2) \<or>
      (from_position h Layer e1 > from_position h Layer e2 \<and>
       to_position h NextLayer e1 < to_position h NextLayer e2))"

definition crossing_pairs :: "heap \<Rightarrow> node_ptr list \<Rightarrow> node_ptr list \<Rightarrow> edge_ptr set set" where
  "crossing_pairs h Layer NextLayer =
     {{e1, e2} | e1 e2.
        e1 \<in> set (edges_between h Layer NextLayer) \<and> e2 \<in> set (edges_between h Layer NextLayer) \<and>
        edges_cross h Layer NextLayer e1 e2}"

fun brute_force_crossing :: "heap \<Rightarrow> node_ptr list list \<Rightarrow> int" where
  "brute_force_crossing h (Layer # NextLayer # Rest) =
     int (card (crossing_pairs h Layer NextLayer)) + brute_force_crossing h (NextLayer # Rest)"
| "brute_force_crossing h Order = 0"

text \<open>
  A layered list is well formed for a store when, for every two adjacent ranks, no node is
  listed twice in a rank, the pins and the out-edge records of different nodes are
  different objects, and every out-edge record of a node of the upper rank leaves from an
  output pin of that node and, when its head node is in the lower rank, enters an input
  pin of its head node. \<^verbatim>\<open>BuildNodes\<close> and \<^verbatim>\<open>BuildEdges\<close> create the pins and the edges
  this way, and \<^verbatim>\<open>DoLayering\<close> lists every node once.
\<close>

definition rank_pair_wf :: "heap \<Rightarrow> node_ptr list \<Rightarrow> node_ptr list \<Rightarrow> bool" where
  "rank_pair_wf h Layer NextLayer \<longleftrightarrow>
     distinct Layer \<and> distinct NextLayer \<and>
     distinct (rank_out_pins h Layer) \<and> distinct (rank_in_pins h NextLayer) \<and>
     distinct (rank_out_edges h Layer) \<and>
     (\<forall>n \<in> set Layer. \<forall>e \<in> set (OutEdges (nodes h n)).
        From (edges h e) \<in> set (OutPins (nodes h n)) \<and>
        (EdgeTarget h e \<in> set NextLayer \<longrightarrow>
           To (edges h e) \<in> set (InPins (nodes h (EdgeTarget h e)))))"

fun ranks_wf :: "heap \<Rightarrow> node_ptr list list \<Rightarrow> bool" where
  "ranks_wf h (Layer # NextLayer # Rest) \<longleftrightarrow>
     rank_pair_wf h Layer NextLayer \<and> ranks_wf h (NextLayer # Rest)"
| "ranks_wf h Order \<longleftrightarrow> True"

subsection \<open>The collector computes the positions\<close>

lemma IndexOfByPredicate_takeWhile:
  "\<exists>x \<in> set xs. P x \<Longrightarrow> IndexOfByPredicate P xs = Some (length (takeWhile (\<lambda>x. \<not> P x) xs))"
  by (induction xs) auto

lemma TArray_Find_position: "p \<in> set ps \<Longrightarrow> TArray_Find ps p = pin_position ps p"
  using IndexOfByPredicate_takeWhile [of ps "\<lambda>y. y = p"]
  by (auto simp: TArray_Find_def pin_position_def)

lemma pin_position_append2:
  "p \<notin> set A \<Longrightarrow> pin_position (A @ B) p = int (length A) + pin_position B p"
  by (induction A) (auto simp: pin_position_def)

lemma pin_position_append1:
  "p \<in> set A \<Longrightarrow> pin_position (A @ B) p = pin_position A p"
  by (induction A) (auto simp: pin_position_def)

lemma EdgeTarget_same: "same_structure h0 h \<Longrightarrow> EdgeTarget h e = EdgeTarget h0 e"
  by (simp add: same_structure_def EdgeTarget_def)

lemma same_From_To:
  "same_structure h0 h \<Longrightarrow> From (edges h e) = From (edges h0 e) \<and> To (edges h e) = To (edges h0 e)"
  by (simp add: same_structure_def)

lemma inner_fold:
  assumes "same_structure h0 hc" "distinct suf"
  shows "case fold (GetEdgeLinkedToLayer_step n S EGPD_Output e) suf (I, R, hc) of
           (I', R', h') \<Rightarrow>
             same_structure h0 h' \<and> (\<forall>x. x \<noteq> e \<longrightarrow> edges h' x = edges hc x) \<and>
             (if EdgeTarget h0 e \<in> set suf
              then R' = R @ [e] \<and>
                   FromIndex (edges h' e) = S + GetOutputPinIndex h0 n (From (edges h0 e)) \<and>
                   ToIndex (edges h' e) =
                     I + int (length (rank_in_pins h0 (takeWhile (\<lambda>m. m \<noteq> EdgeTarget h0 e) suf)))
                       + GetInputPinIndex h0 (EdgeTarget h0 e) (To (edges h0 e))
              else R' = R \<and> edges h' e = edges hc e)"
  using assms
proof (induction suf arbitrary: I R hc)
  case Nil
  then show ?case by simp
next
  case (Cons m suf)
  let ?t = "EdgeTarget h0 e"
  have tc: "EdgeTarget hc e = ?t" by (rule EdgeTarget_same [OF Cons.prems(1)])
  have ft: "From (edges hc e) = From (edges h0 e)" "To (edges hc e) = To (edges h0 e)"
    using same_From_To [OF Cons.prems(1)] by simp_all
  note pq = pin_queries_same [OF Cons.prems(1)]
  have ds: "distinct suf" "m \<notin> set suf" using Cons.prems(2) by simp_all
  show ?case
  proof (cases "?t = m")
    case False
    have st: "GetEdgeLinkedToLayer_step n S EGPD_Output e m (I, R, hc) =
               (I + GetInputPinCount h0 m, R, hc)"
      using False tc pq by (simp add: GetEdgeLinkedToLayer_step_def EdgeTarget_def)
    have len: "int (length (rank_in_pins h0 (takeWhile (\<lambda>m. m \<noteq> ?t) (m # suf)))) =
               GetInputPinCount h0 m + int (length (rank_in_pins h0 (takeWhile (\<lambda>m. m \<noteq> ?t) suf)))"
      using False by (simp add: rank_in_pins_def GetInputPinCount_def)
    from Cons.IH [OF Cons.prems(1) ds(1), where I = "I + GetInputPinCount h0 m" and R = R]
    show ?thesis
      using False st len by (auto split: prod.splits)
  next
    case True
    define I' where "I' = I + GetInputPinIndex h0 m (To (edges h0 e))"
    define h2 where "h2 = set_edge e (\<lambda>r. r\<lparr>ToIndex := I'\<rparr>)
        (set_edge e (\<lambda>r. r\<lparr>FromIndex := S + GetOutputPinIndex h0 n (From (edges h0 e))\<rparr>) hc)"
    have st: "GetEdgeLinkedToLayer_step n S EGPD_Output e m (I, R, hc) = (I', R @ [e], h2)"
      using True tc pq ft
      by (simp add: GetEdgeLinkedToLayer_step_def EdgeTarget_def Let_def I'_def h2_def)
    have ss2: "same_structure h0 h2"
      using Cons.prems(1) by (simp add: h2_def same_structure_def set_edge_def)
    have e2: "FromIndex (edges h2 e) = S + GetOutputPinIndex h0 n (From (edges h0 e))"
      "ToIndex (edges h2 e) = I'" "\<forall>x. x \<noteq> e \<longrightarrow> edges h2 x = edges hc x"
      by (simp_all add: h2_def set_edge_def)
    have notin: "?t \<notin> set suf" using True ds by simp
    from Cons.IH [OF ss2 ds(1), where I = I' and R = "R @ [e]"] notin
    show ?thesis
      using True st e2 by (auto simp: I'_def rank_in_pins_def split: prod.splits)
  qed
qed

text \<open>the indices the code writes for an out-edge of the node at a given place of the rank\<close>

lemma edge_fold:
  assumes "same_structure h0 hc" "distinct L2"
    and good: "\<forall>e \<in> set es. EdgeTarget h0 e \<in> set L2 \<longrightarrow>
        FI e = S + GetOutputPinIndex h0 n (From (edges h0 e)) \<and>
        TI e = int (length (rank_in_pins h0 (takeWhile (\<lambda>m. m \<noteq> EdgeTarget h0 e) L2)))
                 + GetInputPinIndex h0 (EdgeTarget h0 e) (To (edges h0 e))"
    and inv: "\<forall>x \<in> W \<union> set R. FromIndex (edges hc x) = FI x \<and> ToIndex (edges hc x) = TI x"
  shows "case fold (GetEdgeLinkedToLayer_edge n L2 S EGPD_Output) es (R, hc) of
           (R', h') \<Rightarrow>
             same_structure h0 h' \<and>
             R' = R @ filter (\<lambda>e. EdgeTarget h0 e \<in> set L2) es \<and>
             (\<forall>x \<in> W \<union> set R'. FromIndex (edges h' x) = FI x \<and> ToIndex (edges h' x) = TI x)"
  using assms(1) good inv
proof (induction es arbitrary: R hc)
  case Nil
  then show ?case by simp
next
  case (Cons e es)
  obtain I1 R1 h1 where f: "fold (GetEdgeLinkedToLayer_step n S EGPD_Output e) L2 (0, R, hc) = (I1, R1, h1)"
    by (cases "fold (GetEdgeLinkedToLayer_step n S EGPD_Output e) L2 (0, R, hc)") auto
  from inner_fold [OF Cons.prems(1) assms(2), where n = n and S = S and e = e and I = 0 and R = R] f
  have ss1: "same_structure h0 h1" and oth: "\<forall>x. x \<noteq> e \<longrightarrow> edges h1 x = edges hc x"
    and hit: "EdgeTarget h0 e \<in> set L2 \<Longrightarrow> R1 = R @ [e] \<and>
         FromIndex (edges h1 e) = S + GetOutputPinIndex h0 n (From (edges h0 e)) \<and>
         ToIndex (edges h1 e) =
           int (length (rank_in_pins h0 (takeWhile (\<lambda>m. m \<noteq> EdgeTarget h0 e) L2)))
             + GetInputPinIndex h0 (EdgeTarget h0 e) (To (edges h0 e))"
    and miss: "EdgeTarget h0 e \<notin> set L2 \<Longrightarrow> R1 = R \<and> edges h1 e = edges hc e"
    by (auto split: if_splits)
  have step: "GetEdgeLinkedToLayer_edge n L2 S EGPD_Output e (R, hc) = (R1, h1)"
    using f by (simp add: GetEdgeLinkedToLayer_edge_def)
  have inv1: "\<forall>x \<in> W \<union> set R1. FromIndex (edges h1 x) = FI x \<and> ToIndex (edges h1 x) = TI x"
  proof
    fix x assume x: "x \<in> W \<union> set R1"
    show "FromIndex (edges h1 x) = FI x \<and> ToIndex (edges h1 x) = TI x"
    proof (cases "EdgeTarget h0 e \<in> set L2")
      case True
      show ?thesis
      proof (cases "x = e")
        case xe: True
        then show ?thesis using hit [OF True] Cons.prems(2) True by simp
      next
        case False
        then have "x \<in> W \<union> set R" using x hit [OF True] by auto
        then show ?thesis using Cons.prems(3) oth False by simp
      qed
    next
      case False
      then have "x \<in> W \<union> set R" using x miss by auto
      moreover have "edges h1 x = edges hc x" using oth miss [OF False] by (cases "x = e") auto
      ultimately show ?thesis using Cons.prems(3) by simp
    qed
  qed
  have good1: "\<forall>e \<in> set es. EdgeTarget h0 e \<in> set L2 \<longrightarrow>
        FI e = S + GetOutputPinIndex h0 n (From (edges h0 e)) \<and>
        TI e = int (length (rank_in_pins h0 (takeWhile (\<lambda>m. m \<noteq> EdgeTarget h0 e) L2)))
                 + GetInputPinIndex h0 (EdgeTarget h0 e) (To (edges h0 e))"
    using Cons.prems(2) by simp
  have R1: "R1 = R @ filter (\<lambda>e. EdgeTarget h0 e \<in> set L2) [e]"
    using hit miss by (cases "EdgeTarget h0 e \<in> set L2") auto
  from Cons.IH [OF ss1 good1 inv1]
  show ?case
    using step R1 by (auto split: prod.splits)
qed

lemma GetEdgeLinkedToLayer_result:
  assumes "same_structure h0 hc" "distinct L2"
    and good: "\<forall>e \<in> set (OutEdges (nodes h0 n)). EdgeTarget h0 e \<in> set L2 \<longrightarrow>
        FI e = S + GetOutputPinIndex h0 n (From (edges h0 e)) \<and>
        TI e = int (length (rank_in_pins h0 (takeWhile (\<lambda>m. m \<noteq> EdgeTarget h0 e) L2)))
                 + GetInputPinIndex h0 (EdgeTarget h0 e) (To (edges h0 e))"
    and inv: "\<forall>x \<in> W. FromIndex (edges hc x) = FI x \<and> ToIndex (edges hc x) = TI x"
  shows "case GetEdgeLinkedToLayer n L2 S EGPD_Output hc of
           (R', h') \<Rightarrow>
             same_structure h0 h' \<and>
             R' = filter (\<lambda>e. EdgeTarget h0 e \<in> set L2) (OutEdges (nodes h0 n)) \<and>
             (\<forall>x \<in> W \<union> set R'. FromIndex (edges h' x) = FI x \<and> ToIndex (edges h' x) = TI x)"
proof -
  have es: "OutEdges (nodes hc n) = OutEdges (nodes h0 n)"
    using assms(1) by (simp add: same_structure_def)
  have inv': "\<forall>x \<in> W \<union> set []. FromIndex (edges hc x) = FI x \<and> ToIndex (edges hc x) = TI x"
    using inv by simp
  from edge_fold [OF assms(1,2) good inv']
  show ?thesis
    by (simp add: GetEdgeLinkedToLayer_def es)
qed


lemma position_in_concat:
  assumes "distinct (concat (map f (A @ n # B)))" "p \<in> set (f n)"
  shows "pin_position (concat (map f (A @ n # B))) p = int (length (concat (map f A))) + TArray_Find (f n) p"
proof -
  have notA: "p \<notin> set (concat (map f A))"
    using assms by auto
  have "pin_position (concat (map f (A @ n # B))) p =
        pin_position (concat (map f A) @ (f n @ concat (map f B))) p"
    by simp
  also have "\<dots> = int (length (concat (map f A))) + pin_position (f n @ concat (map f B)) p"
    by (rule pin_position_append2 [OF notA])
  also have "pin_position (f n @ concat (map f B)) p = pin_position (f n) p"
    by (rule pin_position_append1 [OF assms(2)])
  finally show ?thesis
    by (simp add: TArray_Find_position [OF assms(2)])
qed

lemma split_at_first: "t \<in> set L \<Longrightarrow> \<exists>rest. L = takeWhile (\<lambda>m. m \<noteq> t) L @ t # rest"
  by (induction L) auto

lemma from_position_eq:
  assumes "distinct (rank_out_pins h0 (A @ n # B))" "From (edges h0 e) \<in> set (OutPins (nodes h0 n))"
  shows "from_position h0 (A @ n # B) e =
           int (length (rank_out_pins h0 A)) + GetOutputPinIndex h0 n (From (edges h0 e))"
  using position_in_concat [of "\<lambda>n. OutPins (nodes h0 n)" A n B "From (edges h0 e)"] assms
  by (simp add: from_position_def rank_out_pins_def GetOutputPinIndex_def)

lemma to_position_eq:
  assumes "distinct (rank_in_pins h0 L2)" "EdgeTarget h0 e \<in> set L2"
    "To (edges h0 e) \<in> set (InPins (nodes h0 (EdgeTarget h0 e)))"
  shows "to_position h0 L2 e =
           int (length (rank_in_pins h0 (takeWhile (\<lambda>m. m \<noteq> EdgeTarget h0 e) L2)))
             + GetInputPinIndex h0 (EdgeTarget h0 e) (To (edges h0 e))"
proof -
  let ?t = "EdgeTarget h0 e"
  let ?A = "takeWhile (\<lambda>m. m \<noteq> ?t) L2"
  obtain rest where sp: "L2 = ?A @ ?t # rest"
    using split_at_first [OF assms(2)] by blast
  have d: "distinct (concat (map (\<lambda>n. InPins (nodes h0 n)) (?A @ ?t # rest)))"
    using assms(1) sp by (simp add: rank_in_pins_def)
  have "pin_position (concat (map (\<lambda>n. InPins (nodes h0 n)) (?A @ ?t # rest))) (To (edges h0 e)) =
        int (length (concat (map (\<lambda>n. InPins (nodes h0 n)) ?A)))
          + TArray_Find (InPins (nodes h0 ?t)) (To (edges h0 e))"
    by (rule position_in_concat [OF d assms(3)])
  then show ?thesis
    using sp by (simp add: to_position_def rank_in_pins_def GetInputPinIndex_def)
qed

lemma node_fold:
  assumes dL2: "distinct L2"
    and dist_out: "distinct (rank_out_pins h0 L1)" and dist_in: "distinct (rank_in_pins h0 L2)"
    and own: "\<forall>n \<in> set L1. \<forall>e \<in> set (OutEdges (nodes h0 n)).
                From (edges h0 e) \<in> set (OutPins (nodes h0 n)) \<and>
                (EdgeTarget h0 e \<in> set L2 \<longrightarrow>
                   To (edges h0 e) \<in> set (InPins (nodes h0 (EdgeTarget h0 e))))"
    and ss: "same_structure h0 hc"
    and L1: "L1 = pre @ suf"
    and S: "S = int (length (rank_out_pins h0 pre))"
    and inv: "\<forall>x \<in> set R. FromIndex (edges hc x) = from_position h0 L1 x \<and>
                            ToIndex (edges hc x) = to_position h0 L2 x"
  shows "case fold (GetEdgeBetweenTwoLayer_step L2 EGPD_Output) suf (S, R, hc) of
           (S', R', h') \<Rightarrow>
             same_structure h0 h' \<and> R' = R @ edges_between h0 suf L2 \<and>
             (\<forall>x \<in> set R'. FromIndex (edges h' x) = from_position h0 L1 x \<and>
                             ToIndex (edges h' x) = to_position h0 L2 x)"
  using ss L1 S inv
proof (induction suf arbitrary: pre S R hc)
  case Nil
  then show ?case by (simp add: edges_between_def rank_out_edges_def)
next
  case (Cons n suf)
  have nin: "n \<in> set L1" using Cons.prems(2) by simp
  have good: "\<forall>e \<in> set (OutEdges (nodes h0 n)). EdgeTarget h0 e \<in> set L2 \<longrightarrow>
        from_position h0 L1 e = S + GetOutputPinIndex h0 n (From (edges h0 e)) \<and>
        to_position h0 L2 e =
          int (length (rank_in_pins h0 (takeWhile (\<lambda>m. m \<noteq> EdgeTarget h0 e) L2)))
            + GetInputPinIndex h0 (EdgeTarget h0 e) (To (edges h0 e))"
  proof (intro ballI impI)
    fix e assume e: "e \<in> set (OutEdges (nodes h0 n))" and t: "EdgeTarget h0 e \<in> set L2"
    have fp: "From (edges h0 e) \<in> set (OutPins (nodes h0 n))"
      and tp: "To (edges h0 e) \<in> set (InPins (nodes h0 (EdgeTarget h0 e)))"
      using own nin e t by auto
    have "from_position h0 (pre @ n # suf) e =
            int (length (rank_out_pins h0 pre)) + GetOutputPinIndex h0 n (From (edges h0 e))"
      by (rule from_position_eq [OF _ fp]) (use dist_out Cons.prems(2) in simp)
    moreover note to_position_eq [OF dist_in t tp]
    ultimately show "from_position h0 L1 e = S + GetOutputPinIndex h0 n (From (edges h0 e)) \<and>
        to_position h0 L2 e =
          int (length (rank_in_pins h0 (takeWhile (\<lambda>m. m \<noteq> EdgeTarget h0 e) L2)))
            + GetInputPinIndex h0 (EdgeTarget h0 e) (To (edges h0 e))"
      using Cons.prems(2,3) by simp
  qed
  obtain Linked h1 where g: "GetEdgeLinkedToLayer n L2 S EGPD_Output hc = (Linked, h1)"
    by (cases "GetEdgeLinkedToLayer n L2 S EGPD_Output hc") auto
  from GetEdgeLinkedToLayer_result [OF Cons.prems(1) dL2 good, where W = "set R"] Cons.prems(4) g
  have ss1: "same_structure h0 h1"
    and Lk: "Linked = filter (\<lambda>e. EdgeTarget h0 e \<in> set L2) (OutEdges (nodes h0 n))"
    and inv1: "\<forall>x \<in> set (R @ Linked). FromIndex (edges h1 x) = from_position h0 L1 x \<and>
                            ToIndex (edges h1 x) = to_position h0 L2 x"
    by auto
  have cnt: "GetOutputPinCount h1 n = int (length (OutPins (nodes h0 n)))"
    using pin_queries_same [OF ss1] by (simp add: GetOutputPinCount_def)
  have step: "GetEdgeBetweenTwoLayer_step L2 EGPD_Output n (S, R, hc) =
               (S + int (length (OutPins (nodes h0 n))), R @ Linked, h1)"
    using g cnt by (simp add: GetEdgeBetweenTwoLayer_step_def)
  have L1': "L1 = (pre @ [n]) @ suf" using Cons.prems(2) by simp
  have S': "S + int (length (OutPins (nodes h0 n))) = int (length (rank_out_pins h0 (pre @ [n])))"
    using Cons.prems(3) by (simp add: rank_out_pins_def)
  from Cons.IH [OF ss1 L1' S' inv1]
  show ?case
    using step Lk by (auto simp: edges_between_def rank_out_edges_def split: prod.splits)
qed

lemma GetEdgeBetweenTwoLayer_result:
  assumes "distinct L2" "distinct (rank_out_pins h0 L1)" "distinct (rank_in_pins h0 L2)"
    "\<forall>n \<in> set L1. \<forall>e \<in> set (OutEdges (nodes h0 n)).
        From (edges h0 e) \<in> set (OutPins (nodes h0 n)) \<and>
        (EdgeTarget h0 e \<in> set L2 \<longrightarrow> To (edges h0 e) \<in> set (InPins (nodes h0 (EdgeTarget h0 e))))"
    and ss: "same_structure h0 h"
  shows "case GetEdgeBetweenTwoLayer L1 L2 EGPD_Output h of
           (es, h') \<Rightarrow>
             same_structure h0 h' \<and> es = edges_between h0 L1 L2 \<and>
             (\<forall>x \<in> set es. FromIndex (edges h' x) = from_position h0 L1 x \<and>
                            ToIndex (edges h' x) = to_position h0 L2 x)"
  using node_fold [OF assms, where pre = "[]" and suf = L1 and S = 0 and R = "[]"]
  by (simp add: GetEdgeBetweenTwoLayer_def rank_out_pins_def split: prod.splits)

subsection \<open>Position pairs and unordered pairs\<close>

fun count_pairs :: "('a \<Rightarrow> 'a \<Rightarrow> bool) \<Rightarrow> 'a list \<Rightarrow> nat" where
  "count_pairs C [] = 0"
| "count_pairs C (x # xs) = length (filter (C x) xs) + count_pairs C xs"

lemma inverted_positions_count:
  "inverted_positions (map f es) = int (count_pairs (\<lambda>a b. index_orders_inverted (f a) (f b)) es)"
  by (induction es) (simp_all add: filter_map o_def)

lemma count_pairs_cong:
  "(\<And>a b. a \<in> set es \<Longrightarrow> b \<in> set es \<Longrightarrow> C a b = D a b) \<Longrightarrow> count_pairs C es = count_pairs D es"
proof (induction es)
  case Nil
  show ?case by simp
next
  case (Cons x xs)
  have "filter (C x) xs = filter (D x) xs"
    by (rule filter_cong) (simp_all add: Cons.prems)
  moreover have "count_pairs C xs = count_pairs D xs"
    by (rule Cons.IH) (simp add: Cons.prems)
  ultimately show ?case by simp
qed

lemma count_pairs_card:
  assumes d: "distinct es" and sym: "\<And>a b. C a b \<Longrightarrow> C b a" and irr: "\<And>a. \<not> C a a"
  shows "count_pairs C es = card {{a, b} | a b. a \<in> set es \<and> b \<in> set es \<and> C a b}"
  using d
proof (induction es)
  case Nil
  show ?case by simp
next
  case (Cons x xs)
  let ?P = "\<lambda>S. {{a, b} | a b. a \<in> S \<and> b \<in> S \<and> C a b}"
  let ?X = "(\<lambda>b. {x, b}) ` set (filter (C x) xs)"
  have split: "?P (set (x # xs)) = ?X \<union> ?P (set xs)"
  proof (intro equalityI subsetI)
    fix s assume "s \<in> ?P (set (x # xs))"
    then obtain a b where s: "s = {a, b}" and a: "a \<in> set (x # xs)" and b: "b \<in> set (x # xs)"
      and c: "C a b" by blast
    show "s \<in> ?X \<union> ?P (set xs)"
    proof (cases "a = x")
      case True
      with b c irr have "b \<in> set xs" by auto
      with True c s show ?thesis by auto
    next
      case False
      with a have a': "a \<in> set xs" by simp
      show ?thesis
      proof (cases "b = x")
        case True
        have "s = {x, a}" using s True by auto
        moreover have "C x a" using sym [OF c] True by simp
        ultimately show ?thesis using a' by auto
      next
        case False
        with b have "b \<in> set xs" by simp
        with a' c s show ?thesis by blast
      qed
    qed
  next
    fix s assume "s \<in> ?X \<union> ?P (set xs)"
    then show "s \<in> ?P (set (x # xs))"
    proof
      assume "s \<in> ?X"
      then obtain b where "s = {x, b}" "b \<in> set xs" "C x b" by auto
      then show ?thesis by auto
    next
      assume "s \<in> ?P (set xs)"
      then show ?thesis by auto
    qed
  qed
  have xn: "x \<notin> set xs" and dx: "distinct xs" using Cons.prems by simp_all
  have disj: "?X \<inter> ?P (set xs) = {}"
  proof (rule ccontr)
    assume "?X \<inter> ?P (set xs) \<noteq> {}"
    then obtain s where "s \<in> ?X" "s \<in> ?P (set xs)" by blast
    then obtain b a c where "s = {x, b}" "s = {a, c}" "a \<in> set xs" "c \<in> set xs" by auto
    then have "x = a \<or> x = c" by (auto simp: doubleton_eq_iff)
    with xn \<open>a \<in> set xs\<close> \<open>c \<in> set xs\<close> show False by auto
  qed
  have inj: "inj_on (\<lambda>b. {x, b}) (set (filter (C x) xs))"
    by (rule inj_onI) (auto simp: doubleton_eq_iff)
  have cX: "card ?X = length (filter (C x) xs)"
    using card_image [OF inj] distinct_card [of "filter (C x) xs"] dx by simp
  have finX: "finite ?X" by simp
  have finP: "finite (?P (set xs))"
  proof (rule finite_subset)
    show "?P (set xs) \<subseteq> (\<lambda>(a, b). {a, b}) ` (set xs \<times> set xs)" by auto
  qed simp
  have "card (?P (set (x # xs))) = card ?X + card (?P (set xs))"
    unfolding split by (rule card_Un_disjoint [OF finX finP disj])
  with cX Cons.IH [OF dx] show ?case by simp
qed

lemma index_orders_inverted_sym: "index_orders_inverted a b \<Longrightarrow> index_orders_inverted b a"
  by (auto simp: index_orders_inverted_def)

lemma edges_cross_sym: "edges_cross h L N a b \<Longrightarrow> edges_cross h L N b a"
  by (auto simp: edges_cross_def)

lemma edges_cross_irrefl: "\<not> edges_cross h L N a a"
  by (simp add: edges_cross_def)

lemma crossing_pairsI:
  "a \<in> set (edges_between h L N) \<Longrightarrow> b \<in> set (edges_between h L N) \<Longrightarrow>
     edges_cross h L N a b \<Longrightarrow> {a, b} \<in> crossing_pairs h L N"
  by (auto simp: crossing_pairs_def)

lemma distinct_edges_between: "distinct (rank_out_edges h L) \<Longrightarrow> distinct (edges_between h L N)"
  by (simp add: edges_between_def)

lemma rank_pair_crossing:
  assumes wf: "rank_pair_wf h0 L N" and ss: "same_structure h0 h"
  shows "case GetEdgeBetweenTwoLayer L N EGPD_Output h of
           (es, h') \<Rightarrow>
             same_structure h0 h' \<and> es = edges_between h0 L N \<and>
             (\<forall>a \<in> set es. \<forall>b \<in> set es.
                IsCrossing (edges h' a) (edges h' b) = edges_cross h0 L N a b) \<and>
             CalculateCrossing_pop h' es cv = cv + int (card (crossing_pairs h0 L N))"
proof -
  obtain es h' where g: "GetEdgeBetweenTwoLayer L N EGPD_Output h = (es, h')"
    by (cases "GetEdgeBetweenTwoLayer L N EGPD_Output h") auto
  have r: "same_structure h0 h'" "es = edges_between h0 L N"
    "\<forall>x \<in> set es. FromIndex (edges h' x) = from_position h0 L x \<and>
                   ToIndex (edges h' x) = to_position h0 N x"
    using GetEdgeBetweenTwoLayer_result [of N h0 L h] wf ss g
    by (simp_all add: rank_pair_wf_def)
  have inv: "\<And>a b. a \<in> set es \<Longrightarrow> b \<in> set es \<Longrightarrow>
               index_orders_inverted (edges h' a) (edges h' b) = edges_cross h0 L N a b"
    using r(3) by (auto simp: index_orders_inverted_def edges_cross_def)
  have cr: "\<forall>a \<in> set es. \<forall>b \<in> set es.
              IsCrossing (edges h' a) (edges h' b) = edges_cross h0 L N a b"
    using r(3) by (auto simp: IsCrossing_def edges_cross_def)
  have d: "distinct es"
    using wf r(2) by (simp add: rank_pair_wf_def distinct_edges_between)
  have "inverted_positions (map (edges h') es) =
        int (count_pairs (\<lambda>a b. index_orders_inverted (edges h' a) (edges h' b)) es)"
    by (rule inverted_positions_count)
  also have "count_pairs (\<lambda>a b. index_orders_inverted (edges h' a) (edges h' b)) es =
             count_pairs (edges_cross h0 L N) es"
    by (rule count_pairs_cong) (rule inv)
  also have "count_pairs (edges_cross h0 L N) es = card (crossing_pairs h0 L N)"
    unfolding crossing_pairs_def r(2) [symmetric]
    by (rule count_pairs_card [OF d edges_cross_sym edges_cross_irrefl])
  finally have "CalculateCrossing_pop h' es cv = cv + int (card (crossing_pairs h0 L N))"
    by (simp add: CalculateCrossing_pop_positions)
  then show ?thesis
    by (simp add: g r(1) r(2) [symmetric] cr)
qed

lemma CalculateCrossing_layers_crossing:
  "ranks_wf h0 Order \<Longrightarrow> same_structure h0 h \<Longrightarrow>
     fst (CalculateCrossing_layers Order cv h) = cv + brute_force_crossing h0 Order"
proof (induction Order cv h rule: CalculateCrossing_layers.induct)
  case (1 Layer NextLayer Rest cv h)
  obtain es h' where g: "GetEdgeBetweenTwoLayer Layer NextLayer EGPD_Output h = (es, h')"
    by (cases "GetEdgeBetweenTwoLayer Layer NextLayer EGPD_Output h") auto
  have wf: "rank_pair_wf h0 Layer NextLayer" and wfr: "ranks_wf h0 (NextLayer # Rest)"
    using "1.prems"(1) by simp_all
  from rank_pair_crossing [OF wf "1.prems"(2), where cv = cv] g
  have ss': "same_structure h0 h'"
    and pop: "CalculateCrossing_pop h' es cv = cv + int (card (crossing_pairs h0 Layer NextLayer))"
    by auto
  from "1.IH" [OF g [symmetric] wfr ss'] pop g
  show ?case by simp
qed simp_all

text \<open>
  C6. Let the layered list be well formed, and let the brute-force count stay below
  \<open>2^31\<close>, so that the \<^verbatim>\<open>int32\<close> counter of the source does not wrap. \<^verbatim>\<open>IsCrossing\<close> holds
  of two edge records exactly when their endpoint index orders are inverted. For every two
  adjacent ranks, the edges that \<^verbatim>\<open>GetEdgeBetweenTwoLayer\<close> collects are the edges between
  the two ranks, and on the indices it writes \<^verbatim>\<open>IsCrossing\<close> holds of two of them exactly
  when their pin positions in the two ranks are in inverted order. The value of
  \<^verbatim>\<open>CalculateCrossing\<close> is the brute-force count: the number of unordered pairs of edges
  between two adjacent ranks that cross, summed over the adjacent ranks.
\<close>

theorem CalculateCrossing_brute_force:
  assumes "ranks_wf h Order" and "brute_force_crossing h Order < 2 ^ 31"
  shows "(IsCrossing e1 e2 \<longleftrightarrow>
            (FromIndex e1 < FromIndex e2 \<and> ToIndex e1 > ToIndex e2) \<or>
            (FromIndex e1 > FromIndex e2 \<and> ToIndex e1 < ToIndex e2)) \<and>
         (\<forall>i. i + 1 < length Order \<longrightarrow>
            (case GetEdgeBetweenTwoLayer (Order ! i) (Order ! (i + 1)) EGPD_Output h of
               (es, h') \<Rightarrow>
                 set es = set (edges_between h (Order ! i) (Order ! (i + 1))) \<and>
                 (\<forall>a \<in> set es. \<forall>b \<in> set es.
                    IsCrossing (edges h' a) (edges h' b) =
                      edges_cross h (Order ! i) (Order ! (i + 1)) a b))) \<and>
         fst (CalculateCrossing Order h) = brute_force_crossing h Order"
proof (intro conjI allI impI)
  show "IsCrossing e1 e2 \<longleftrightarrow>
            (FromIndex e1 < FromIndex e2 \<and> ToIndex e1 > ToIndex e2) \<or>
            (FromIndex e1 > FromIndex e2 \<and> ToIndex e1 < ToIndex e2)"
    by (simp add: IsCrossing_def)
next
  show "fst (CalculateCrossing Order h) = brute_force_crossing h Order"
    using CalculateCrossing_layers_crossing [OF assms(1) same_structure_refl, of 0]
    by (simp add: CalculateCrossing_def)
next
  fix i assume i: "i + 1 < length Order"
  have "rank_pair_wf h (Order ! i) (Order ! (i + 1))"
    using assms(1) i
  proof (induction h Order arbitrary: i rule: ranks_wf.induct)
    case (1 h Layer NextLayer Rest)
    show ?case
    proof (cases i)
      case 0
      then show ?thesis using "1.prems" by simp
    next
      case (Suc j)
      then show ?thesis using "1.IH" [of j] "1.prems" by simp
    qed
  qed simp_all
  from rank_pair_crossing [OF this same_structure_refl, where cv = 0]
  show "case GetEdgeBetweenTwoLayer (Order ! i) (Order ! (i + 1)) EGPD_Output h of
               (es, h') \<Rightarrow>
                 set es = set (edges_between h (Order ! i) (Order ! (i + 1))) \<and>
                 (\<forall>a \<in> set es. \<forall>b \<in> set es.
                    IsCrossing (edges h' a) (edges h' b) =
                      edges_cross h (Order ! i) (Order ! (i + 1)) a b)"
    by (auto split: prod.splits)
qed

section \<open>Layering puts the head of every edge in a later layer\<close>

text \<open>
  The edge relation of a graph, and the depth invariant of \<^verbatim>\<open>CalculateLongestPath\<close>: the
  nodes that have a depth have depths between 1 and the counter, and every successor of
  such a node has a depth too, a smaller one.
\<close>

lemma EdgeTarget_set_graph [simp]: "EdgeTarget (set_graph p f h) = EdgeTarget h"
  by (simp add: EdgeTarget_def fun_eq_iff set_graph_def)

lemma GetSuccessors_set_graph [simp]: "GetSuccessors (set_graph p f h) n = GetSuccessors h n"
  by (simp add: GetSuccessors_def) (simp add: set_graph_def)

lemma GetPredecessors_set_graph [simp]: "GetPredecessors (set_graph p f h) n = GetPredecessors h n"
  by (simp add: GetPredecessors_def) (simp add: set_graph_def)

lemma GetSuccessors_fold_set_PathDepth [simp]:
  "GetSuccessors (fold (set_PathDepth d) ls h) n = GetSuccessors h n"
  by (simp add: GetSuccessors_def EdgeTarget_def fold_set_PathDepth_nodes)

lemma GetPredecessors_fold_set_PathDepth [simp]:
  "GetPredecessors (fold (set_PathDepth d) ls h) n = GetPredecessors h n"
  by (simp add: GetPredecessors_def EdgeTarget_def fold_set_PathDepth_nodes)

lemma AnySuccessorPathDepthEqu0_iff:
  "AnySuccessorPathDepthEqu0 h n \<longleftrightarrow> (\<exists>v \<in> set (GetSuccessors h n). PathDepth (nodes h v) = 0)"
  by (auto simp: AnySuccessorPathDepthEqu0_def SuccessorPathDepthEqu0_def GetSuccessors_def list_ex_iff)

lemma set_GetLeaves:
  "set (GetLeavesWidthPathDepthEqu0 this h) =
     {n \<in> set (Nodes (graphs h this)). PathDepth (nodes h n) = 0 \<and>
        (\<forall>v \<in> set (GetSuccessors h n). PathDepth (nodes h v) \<noteq> 0)}"
  by (auto simp: GetLeavesWidthPathDepthEqu0_def GetLeavesWidthPathDepthEqu0_keep_def
        AnySuccessorPathDepthEqu0_iff)

definition successor_rel :: "graph_ptr \<Rightarrow> heap \<Rightarrow> (node_ptr \<times> node_ptr) set" where
  "successor_rel this h = {(u, v). u \<in> set (Nodes (graphs h this)) \<and> v \<in> set (GetSuccessors h u)}"

definition successors_closed :: "graph_ptr \<Rightarrow> heap \<Rightarrow> bool" where
  "successors_closed this h \<longleftrightarrow>
     (\<forall>u \<in> set (Nodes (graphs h this)). \<forall>v \<in> set (GetSuccessors h u). v \<in> set (Nodes (graphs h this)))"

definition depth_inv :: "graph_ptr \<Rightarrow> heap \<Rightarrow> int \<Rightarrow> bool" where
  "depth_inv this h k \<longleftrightarrow>
     (\<forall>n \<in> set (Nodes (graphs h this)).
        0 \<le> PathDepth (nodes h n) \<and> PathDepth (nodes h n) < k \<and>
        (PathDepth (nodes h n) \<noteq> 0 \<longrightarrow>
           (\<forall>v \<in> set (GetSuccessors h n).
              PathDepth (nodes h v) \<noteq> 0 \<and> PathDepth (nodes h v) < PathDepth (nodes h n))))"

lemma depth_inv_step:
  assumes inv: "depth_inv this h k" and k: "1 \<le> k" and cl: "successors_closed this h"
  shows "depth_inv this (fold (set_PathDepth k) (GetLeavesWidthPathDepthEqu0 this h) h) (k + 1)"
  unfolding depth_inv_def
proof (intro ballI)
  fix n assume n: "n \<in> set (Nodes (graphs (fold (set_PathDepth k) (GetLeavesWidthPathDepthEqu0 this h) h) this))"
  then have nin: "n \<in> set (Nodes (graphs h this))" by simp
  let ?h' = "fold (set_PathDepth k) (GetLeavesWidthPathDepthEqu0 this h) h"
  let ?L = "set (GetLeavesWidthPathDepthEqu0 this h)"
  have pd: "\<And>m. PathDepth (nodes ?h' m) = (if m \<in> ?L then k else PathDepth (nodes h m))"
    by (rule PathDepth_fold_set_PathDepth)
  from inv nin have old: "0 \<le> PathDepth (nodes h n)" "PathDepth (nodes h n) < k"
    "PathDepth (nodes h n) \<noteq> 0 \<Longrightarrow>
       \<forall>v \<in> set (GetSuccessors h n). PathDepth (nodes h v) \<noteq> 0 \<and> PathDepth (nodes h v) < PathDepth (nodes h n)"
    by (auto simp: depth_inv_def)
  have succ_in: "\<And>v. v \<in> set (GetSuccessors h n) \<Longrightarrow> v \<in> set (Nodes (graphs h this))"
    using cl nin by (auto simp: successors_closed_def)
  have succ_lt: "\<And>v. v \<in> set (GetSuccessors h n) \<Longrightarrow> PathDepth (nodes h v) < k"
    using succ_in inv by (auto simp: depth_inv_def)
  show "0 \<le> PathDepth (nodes ?h' n) \<and> PathDepth (nodes ?h' n) < k + 1 \<and>
        (PathDepth (nodes ?h' n) \<noteq> 0 \<longrightarrow>
           (\<forall>v \<in> set (GetSuccessors ?h' n).
              PathDepth (nodes ?h' v) \<noteq> 0 \<and> PathDepth (nodes ?h' v) < PathDepth (nodes ?h' n)))"
  proof (cases "n \<in> ?L")
    case True
    then have s0: "\<forall>v \<in> set (GetSuccessors h n). PathDepth (nodes h v) \<noteq> 0"
      by (simp add: set_GetLeaves)
    then have notleaf: "\<forall>v \<in> set (GetSuccessors h n). v \<notin> ?L"
      by (auto simp: set_GetLeaves)
    show ?thesis
      using True k s0 notleaf succ_lt by (auto simp: pd)
  next
    case False
    show ?thesis
    proof (cases "PathDepth (nodes h n) = 0")
      case True
      then show ?thesis using False old by (simp add: pd)
    next
      case nz: False
      have "\<forall>v \<in> set (GetSuccessors h n). v \<notin> ?L"
        using old(3) [OF nz] by (auto simp: set_GetLeaves)
      then show ?thesis
        using False old nz by (auto simp: pd)
    qed
  qed
qed

lemma acyclic_no_zero_region:
  assumes ac: "acyclic (successor_rel this h)" and cl: "successors_closed this h"
    and nl: "\<forall>n \<in> set (Nodes (graphs h this)). Z n \<longrightarrow> (\<exists>v \<in> set (GetSuccessors h n). Z v)"
    and n: "n \<in> set (Nodes (graphs h this))"
  shows "\<not> Z n"
proof
  assume zn: "Z n"
  have "successor_rel this h \<subseteq> set (Nodes (graphs h this)) \<times> set (Nodes (graphs h this))"
    using cl by (auto simp: successor_rel_def successors_closed_def)
  then have "finite (successor_rel this h)"
    by (rule finite_subset) simp
  then have wf: "wf ((successor_rel this h)\<inverse>)"
    using ac by (rule finite_acyclic_wf_converse)
  let ?Q = "{m \<in> set (Nodes (graphs h this)). Z m}"
  have "n \<in> ?Q" using n zn by simp
  from wfE_min [OF wf this]
  obtain z where z: "z \<in> ?Q" and min: "\<And>y. (y, z) \<in> (successor_rel this h)\<inverse> \<Longrightarrow> y \<notin> ?Q"
    by blast
  from z nl obtain v where v: "v \<in> set (GetSuccessors h z)" "Z v" by auto
  have "v \<in> set (Nodes (graphs h this))"
    using cl z v by (auto simp: successors_closed_def)
  moreover have "(v, z) \<in> (successor_rel this h)\<inverse>"
    using z v by (simp add: successor_rel_def)
  ultimately show False using min v by auto
qed

lemma CalculateLongestPath_loop_result:
  assumes "depth_inv this h k" "1 \<le> k" "successors_closed this h" "acyclic (successor_rel this h)"
    "CalculateLongestPath_loop this k h = (L, h')"
  shows "(\<forall>n. GetSuccessors h' n = GetSuccessors h n) \<and> (\<forall>n. GetPredecessors h' n = GetPredecessors h n) \<and>
         graphs h' = graphs h \<and> 1 \<le> L \<and>
         (\<forall>n \<in> set (Nodes (graphs h this)). 1 \<le> PathDepth (nodes h' n) \<and> PathDepth (nodes h' n) < L) \<and>
         (\<forall>u \<in> set (Nodes (graphs h this)). \<forall>v \<in> set (GetSuccessors h u).
             PathDepth (nodes h' v) < PathDepth (nodes h' u))"
  using assms
proof (induction this k h rule: CalculateLongestPath_loop.induct)
  case (1 this k h)
  show ?case
  proof (cases "GetLeavesWidthPathDepthEqu0 this h = []")
    case True
    then have res: "L = k" "h' = h"
      using "1.prems"(5) by (simp_all add: CalculateLongestPath_loop.simps [of this k h])
    have nz: "\<forall>n \<in> set (Nodes (graphs h this)). PathDepth (nodes h n) \<noteq> 0"
    proof
      fix n assume n: "n \<in> set (Nodes (graphs h this))"
      have "\<forall>m \<in> set (Nodes (graphs h this)). PathDepth (nodes h m) = 0 \<longrightarrow>
              (\<exists>v \<in> set (GetSuccessors h m). PathDepth (nodes h v) = 0)"
      proof (intro ballI impI)
        fix m assume m: "m \<in> set (Nodes (graphs h this))" "PathDepth (nodes h m) = 0"
        have "m \<notin> set (GetLeavesWidthPathDepthEqu0 this h)" using True by simp
        then show "\<exists>v \<in> set (GetSuccessors h m). PathDepth (nodes h v) = 0"
          using m by (auto simp: set_GetLeaves)
      qed
      from acyclic_no_zero_region [of this h "\<lambda>m. PathDepth (nodes h m) = 0", OF "1.prems"(4) "1.prems"(3) this n]
      show "PathDepth (nodes h n) \<noteq> 0" .
    qed
    have mono: "\<forall>u \<in> set (Nodes (graphs h this)). \<forall>v \<in> set (GetSuccessors h u).
             PathDepth (nodes h v) < PathDepth (nodes h u)"
      using nz "1.prems"(1) by (auto simp: depth_inv_def)
    have bounds: "\<forall>n \<in> set (Nodes (graphs h this)). 1 \<le> PathDepth (nodes h n) \<and> PathDepth (nodes h n) < k"
    proof
      fix n assume n: "n \<in> set (Nodes (graphs h this))"
      then have "0 \<le> PathDepth (nodes h n)" "PathDepth (nodes h n) < k" "PathDepth (nodes h n) \<noteq> 0"
        using nz "1.prems"(1) by (auto simp: depth_inv_def)
      then show "1 \<le> PathDepth (nodes h n) \<and> PathDepth (nodes h n) < k" by simp
    qed
    show ?thesis
      using res mono bounds "1.prems"(2) by simp
  next
    case False
    let ?h1 = "fold (set_PathDepth k) (GetLeavesWidthPathDepthEqu0 this h) h"
    have rec: "CalculateLongestPath_loop this (k + 1) ?h1 = (L, h')"
      using "1.prems"(5) False by (simp add: CalculateLongestPath_loop.simps [of this k h] Let_def)
    have inv1: "depth_inv this ?h1 (k + 1)"
      by (rule depth_inv_step [OF "1.prems"(1,2,3)])
    have cl1: "successors_closed this ?h1"
      using "1.prems"(3) by (simp add: successors_closed_def)
    have ac1: "acyclic (successor_rel this ?h1)"
      using "1.prems"(4) by (simp add: successor_rel_def)
    have k1: "1 \<le> k + 1" using "1.prems"(2) by simp
    have len: "length (GetLeavesWidthPathDepthEqu0 this h) \<noteq> 0" using False by simp
    from "1.IH" [OF refl len inv1 k1 cl1 ac1 rec]
    show ?thesis by simp
  qed
qed

lemma set_fold_DoLayering_node:
  "set (fold (DoLayering_node h S) xs L0) =
     set L0 \<union> {x \<in> set xs. set (GetPredecessors h x) \<subseteq> set S}"
  by (induction xs arbitrary: L0) (auto simp: DoLayering_node_def TSet_Add_def list_all_iff)

lemma distinct_fold_DoLayering_node:
  "distinct L0 \<Longrightarrow> distinct (fold (DoLayering_node h S) xs L0)"
  by (induction xs arbitrary: L0) (auto simp: DoLayering_node_def TSet_Add_def)

lemma set_fold_TSet_Add: "set (fold TSet_Add xs S) = set S \<union> set xs"
  by (induction xs arbitrary: S) (auto simp: TSet_Add_def)

lemma set_DoLayering_layer:
  "set (DoLayering_layer this h i S) =
     {n. (n \<in> set (Nodes (graphs h this)) \<and> n \<notin> set S \<and> i \<le> PathDepth (nodes h n) \<or>
          (\<exists>u \<in> set S. n \<in> set (GetSuccessors h u) \<and> n \<notin> set S)) \<and>
         set (GetPredecessors h n) \<subseteq> set S}"
  by (auto simp: DoLayering_layer_def Let_def set_fold_DoLayering_node GetNodesGreaterThan_def
        GetNodesGreaterThan_keep_def GetSuccessorsForNodes_def GetSuccessorsForNodes_node_def)

lemma distinct_DoLayering_layer: "distinct (DoLayering_layer this h i S)"
  by (simp add: DoLayering_layer_def Let_def distinct_fold_DoLayering_node)

lemma in_concat_nth: "x \<in> set (concat xss) \<longleftrightarrow> (\<exists>j < length xss. x \<in> set (xss ! j))"
proof -
  have "x \<in> set (concat xss) \<longleftrightarrow> (\<exists>xs \<in> set xss. x \<in> set xs)" by simp
  also have "\<dots> \<longleftrightarrow> (\<exists>j < length xss. x \<in> set (xss ! j))"
    by (metis in_set_conv_nth)
  finally show ?thesis .
qed

lemma DoLayering_loop_result:
  assumes cl: "successors_closed this h"
    and pm: "\<forall>v \<in> set (Nodes (graphs h this)). \<forall>u \<in> set (GetPredecessors h v).
               PathDepth (nodes h v) < PathDepth (nodes h u) \<and> u \<in> set (Nodes (graphs h this))"
    and pos: "\<forall>n \<in> set (Nodes (graphs h this)). 1 \<le> PathDepth (nodes h n)"
    and S1: "set S = set (concat LL)" and S2: "distinct (concat LL)"
    and S3: "set S \<subseteq> set (Nodes (graphs h this))"
    and S4: "\<forall>n \<in> set (Nodes (graphs h this)). int i < PathDepth (nodes h n) \<longrightarrow> n \<in> set S"
    and S5: "\<forall>j < length LL. \<forall>v \<in> set (LL ! j). \<forall>u \<in> set (GetPredecessors h v). \<exists>j' < j. u \<in> set (LL ! j')"
    and res: "DoLayering_loop this h i (S, LL) = (S', LL')"
  shows "set (concat LL') = set (Nodes (graphs h this)) \<and> distinct (concat LL') \<and>
         (\<forall>j < length LL'. \<forall>v \<in> set (LL' ! j). \<forall>u \<in> set (GetPredecessors h v). \<exists>j' < j. u \<in> set (LL' ! j'))"
  using S1 S2 S3 S4 S5 res
proof (induction i arbitrary: S LL)
  case 0
  have "set (Nodes (graphs h this)) \<subseteq> set S"
    using "0.prems"(4) pos by fastforce
  moreover have "LL' = LL"
    using "0.prems"(6) by (simp add: DoLayering_loop.simps)
  ultimately show ?case using 0 by auto
next
  case (Suc i)
  let ?Layer = "DoLayering_layer this h (int (Suc i)) S"
  let ?S1 = "fold TSet_Add ?Layer S"
  let ?LL1 = "LL @ [?Layer]"
  have rec: "DoLayering_loop this h i (?S1, ?LL1) = (S', LL')"
    using Suc.prems(6) by (simp add: DoLayering_loop.simps [of this h "Suc i"] DoLayering_iteration_def Let_def)
  have layer_new: "set ?Layer \<inter> set S = {}"
    by (auto simp: set_DoLayering_layer)
  have layer_in: "set ?Layer \<subseteq> set (Nodes (graphs h this))"
    using cl Suc.prems(3) by (auto simp: set_DoLayering_layer successors_closed_def)
  have layer_preds: "\<forall>v \<in> set ?Layer. set (GetPredecessors h v) \<subseteq> set S"
    by (auto simp: set_DoLayering_layer)
  have T1: "set ?S1 = set (concat ?LL1)"
    using Suc.prems(1) by (simp add: set_fold_TSet_Add)
  have T2: "distinct (concat ?LL1)"
    using Suc.prems(1,2) layer_new distinct_DoLayering_layer [of this h "int (Suc i)" S] by auto
  have T3: "set ?S1 \<subseteq> set (Nodes (graphs h this))"
    using Suc.prems(3) layer_in by (simp add: set_fold_TSet_Add)
  have T4: "\<forall>n \<in> set (Nodes (graphs h this)). int i < PathDepth (nodes h n) \<longrightarrow> n \<in> set ?S1"
  proof (intro ballI impI)
    fix n assume n: "n \<in> set (Nodes (graphs h this))" and d: "int i < PathDepth (nodes h n)"
    show "n \<in> set ?S1"
    proof (cases "n \<in> set S")
      case True
      then show ?thesis by (simp add: set_fold_TSet_Add)
    next
      case False
      have ge: "int (Suc i) \<le> PathDepth (nodes h n)" using d by simp
      have "set (GetPredecessors h n) \<subseteq> set S"
      proof
        fix u assume u: "u \<in> set (GetPredecessors h n)"
        then have "PathDepth (nodes h n) < PathDepth (nodes h u)" "u \<in> set (Nodes (graphs h this))"
          using pm n by auto
        then show "u \<in> set S" using Suc.prems(4) ge by auto
      qed
      then have "n \<in> set ?Layer"
        using n False ge by (auto simp: set_DoLayering_layer)
      then show ?thesis by (simp add: set_fold_TSet_Add)
    qed
  qed
  have T5: "\<forall>j < length ?LL1. \<forall>v \<in> set (?LL1 ! j). \<forall>u \<in> set (GetPredecessors h v). \<exists>j' < j. u \<in> set (?LL1 ! j')"
  proof (intro allI impI ballI)
    fix j v u assume j: "j < length ?LL1" and v: "v \<in> set (?LL1 ! j)" and u: "u \<in> set (GetPredecessors h v)"
    show "\<exists>j' < j. u \<in> set (?LL1 ! j')"
    proof (cases "j < length LL")
      case True
      then have "v \<in> set (LL ! j)" using v by (simp add: nth_append)
      with Suc.prems(5) True u obtain j' where j': "j' < j" "u \<in> set (LL ! j')"
        by blast
      then have "u \<in> set (?LL1 ! j')" using True by (simp add: nth_append)
      with j' show ?thesis by blast
    next
      case False
      then have jl: "j = length LL" using j by simp
      then have "v \<in> set ?Layer" using v by simp
      then have "u \<in> set S" using layer_preds u by blast
      then have "u \<in> set (concat LL)" using Suc.prems(1) by simp
      then obtain j' where "j' < length LL" "u \<in> set (LL ! j')"
        unfolding in_concat_nth by blast
      then show ?thesis using jl by (auto simp: nth_append)
    qed
  qed
  show ?case
    by (rule Suc.IH [OF T1 T2 T3 T4 T5 rec])
qed

text \<open>
  In a graph built by \<^verbatim>\<open>BuildEdges\<close> every edge is recorded in the out-edges of its tail and
  in the in-edges of its head, and both ends are nodes of the graph.
\<close>

definition edges_mirrored :: "graph_ptr \<Rightarrow> heap \<Rightarrow> bool" where
  "edges_mirrored this h \<longleftrightarrow>
     (\<forall>u \<in> set (Nodes (graphs h this)). \<forall>v \<in> set (GetSuccessors h u).
        v \<in> set (Nodes (graphs h this)) \<and> u \<in> set (GetPredecessors h v)) \<and>
     (\<forall>v \<in> set (Nodes (graphs h this)). \<forall>u \<in> set (GetPredecessors h v).
        u \<in> set (Nodes (graphs h this)) \<and> v \<in> set (GetSuccessors h u))"

text \<open>
  C1. Let the graph be non-empty and acyclic, with every edge recorded at both of its ends,
  and let the path depths be 0, as the constructors leave them. Then \<^verbatim>\<open>DoLayering\<close>
  returns, every node of the graph is in exactly one layer of the layered list, and for
  every edge from a node \<open>u\<close> to a node \<open>v\<close> the index of the layer of \<open>v\<close> is strictly
  greater than the index of the layer of \<open>u\<close>: the rank difference is at least 1.
\<close>

theorem DoLayering_rank_feasible:
  assumes ne: "Nodes (graphs h this) \<noteq> []"
    and mir: "edges_mirrored this h"
    and ac: "acyclic (successor_rel this h)"
    and fresh: "\<forall>n \<in> set (Nodes (graphs h this)). PathDepth (nodes h n) = 0"
  shows "set (concat (LayeredList (graphs (DoLayering this h) this))) = set (Nodes (graphs h this)) \<and>
         distinct (concat (LayeredList (graphs (DoLayering this h) this))) \<and>
         (\<forall>u \<in> set (Nodes (graphs h this)). \<forall>v \<in> set (GetSuccessors (DoLayering this h) u).
            \<exists>i j. i < j \<and> j < length (LayeredList (graphs (DoLayering this h) this)) \<and>
                  u \<in> set (LayeredList (graphs (DoLayering this h) this) ! i) \<and>
                  v \<in> set (LayeredList (graphs (DoLayering this h) this) ! j))"
proof -
  let ?h0 = "set_graph this (\<lambda>g. g\<lparr>LayeredList := []\<rparr>) h"
  have N0: "Nodes (graphs ?h0 this) = Nodes (graphs h this)"
    by (simp add: set_graph_def)
  have G0: "\<And>n. GetSuccessors ?h0 n = GetSuccessors h n" "\<And>n. GetPredecessors ?h0 n = GetPredecessors h n"
    "nodes ?h0 = nodes h"
    by (simp_all, simp add: set_graph_def)
  obtain L h1 where lp: "CalculateLongestPath this ?h0 = (L, h1)"
    by (cases "CalculateLongestPath this ?h0") auto
  then obtain L1 where lp1: "CalculateLongestPath_loop this 1 ?h0 = (L1, h1)" and L: "L = L1 - 1"
    by (auto simp: CalculateLongestPath_def split: prod.splits)
  have inv0: "depth_inv this ?h0 1"
    using fresh unfolding depth_inv_def N0 G0(3) by simp
  have cl: "successors_closed this h"
    using mir unfolding successors_closed_def edges_mirrored_def by blast
  have cl0: "successors_closed this ?h0"
    using cl unfolding successors_closed_def N0 G0(1) .
  have ac0: "acyclic (successor_rel this ?h0)"
    using ac unfolding successor_rel_def N0 G0(1) .
  have R: "(\<forall>n. GetSuccessors h1 n = GetSuccessors ?h0 n) \<and> (\<forall>n. GetPredecessors h1 n = GetPredecessors ?h0 n) \<and>
         graphs h1 = graphs ?h0 \<and> 1 \<le> L1 \<and>
         (\<forall>n \<in> set (Nodes (graphs ?h0 this)). 1 \<le> PathDepth (nodes h1 n) \<and> PathDepth (nodes h1 n) < L1) \<and>
         (\<forall>u \<in> set (Nodes (graphs ?h0 this)). \<forall>v \<in> set (GetSuccessors ?h0 u).
             PathDepth (nodes h1 v) < PathDepth (nodes h1 u))"
    by (rule CalculateLongestPath_loop_result [OF inv0 _ cl0 ac0 lp1]) simp
  have s1: "\<And>n. GetSuccessors h1 n = GetSuccessors h n"
    using R G0(1) by simp
  have p1: "\<And>n. GetPredecessors h1 n = GetPredecessors h n"
    using R G0(2) by simp
  have g1: "graphs h1 = graphs ?h0" and L1: "1 \<le> L1"
    using R by blast+
  have b1: "\<forall>n \<in> set (Nodes (graphs h this)). 1 \<le> PathDepth (nodes h1 n) \<and> PathDepth (nodes h1 n) < L1"
    using R unfolding N0 by blast
  have m1: "\<forall>u \<in> set (Nodes (graphs h this)). \<forall>v \<in> set (GetSuccessors h u).
               PathDepth (nodes h1 v) < PathDepth (nodes h1 u)"
    using R unfolding N0 G0(1) by blast
  have N1: "Nodes (graphs h1 this) = Nodes (graphs h this)"
    by (simp add: g1 N0)
  obtain S' LL' where loop: "DoLayering_loop this h1 (nat L) ([], []) = (S', LL')"
    by (cases "DoLayering_loop this h1 (nat L) ([], [])") auto
  have cl1: "successors_closed this h1"
    using cl unfolding successors_closed_def N1 s1 .
  have pm1: "\<forall>v \<in> set (Nodes (graphs h1 this)). \<forall>u \<in> set (GetPredecessors h1 v).
               PathDepth (nodes h1 v) < PathDepth (nodes h1 u) \<and> u \<in> set (Nodes (graphs h1 this))"
    unfolding N1 p1
  proof (intro ballI)
    fix v u assume v: "v \<in> set (Nodes (graphs h this))" and u: "u \<in> set (GetPredecessors h v)"
    then have "u \<in> set (Nodes (graphs h this))" "v \<in> set (GetSuccessors h u)"
      using mir unfolding edges_mirrored_def by blast+
    then show "PathDepth (nodes h1 v) < PathDepth (nodes h1 u) \<and> u \<in> set (Nodes (graphs h this))"
      using m1 by blast
  qed
  have pos1: "\<forall>n \<in> set (Nodes (graphs h1 this)). 1 \<le> PathDepth (nodes h1 n)"
    using b1 unfolding N1 by blast
  have top: "\<forall>n \<in> set (Nodes (graphs h1 this)). int (nat L) < PathDepth (nodes h1 n) \<longrightarrow> n \<in> set []"
    unfolding N1
  proof (intro ballI impI)
    fix n assume "n \<in> set (Nodes (graphs h this))" "int (nat L) < PathDepth (nodes h1 n)"
    then have False using b1 L L1 by fastforce
    then show "n \<in> set []" ..
  qed
  have r0: "set (concat LL') = set (Nodes (graphs h1 this)) \<and> distinct (concat LL') \<and>
    (\<forall>j < length LL'. \<forall>v \<in> set (LL' ! j). \<forall>u \<in> set (GetPredecessors h1 v). \<exists>j' < j. u \<in> set (LL' ! j'))"
    by (rule DoLayering_loop_result [OF cl1 pm1 pos1 _ _ _ top _ loop]) simp_all
  have r: "set (concat LL') = set (Nodes (graphs h this))" "distinct (concat LL')"
    "\<forall>j < length LL'. \<forall>v \<in> set (LL' ! j). \<forall>u \<in> set (GetPredecessors h v). \<exists>j' < j. u \<in> set (LL' ! j')"
    using r0 unfolding N1 p1 by blast+
  have fin: "DoLayering this h = set_graph this (\<lambda>g. g\<lparr>LayeredList := LayeredList g @ LL'\<rparr>) h1"
    using lp loop by (simp add: DoLayering_def Let_def)
  have LLf: "LayeredList (graphs (DoLayering this h) this) = LL'"
    by (simp add: fin set_graph_def g1)
  have Sf: "\<And>n. GetSuccessors (DoLayering this h) n = GetSuccessors h n"
    using s1 by (simp add: fin)
  have edges_ok: "\<forall>u \<in> set (Nodes (graphs h this)). \<forall>v \<in> set (GetSuccessors h u).
            \<exists>i j. i < j \<and> j < length LL' \<and> u \<in> set (LL' ! i) \<and> v \<in> set (LL' ! j)"
  proof (intro ballI)
    fix u v assume u: "u \<in> set (Nodes (graphs h this))" and v: "v \<in> set (GetSuccessors h u)"
    then have vin: "v \<in> set (Nodes (graphs h this))" and up: "u \<in> set (GetPredecessors h v)"
      using mir unfolding edges_mirrored_def by blast+
    from vin r(1) have "v \<in> set (concat LL')" by simp
    then obtain j where j: "j < length LL'" "v \<in> set (LL' ! j)"
      unfolding in_concat_nth by blast
    with r(3) up obtain i where "i < j" "u \<in> set (LL' ! i)" by blast
    with j show "\<exists>i j. i < j \<and> j < length LL' \<and> u \<in> set (LL' ! i) \<and> v \<in> set (LL' ! j)" by blast
  qed
  show ?thesis
    using r(1,2) edges_ok by (simp add: LLf Sf)
qed

section \<open>A three-cycle\<close>

text \<open>
  The graph \<open>A \<rightarrow> B \<rightarrow> C \<rightarrow> A\<close>, built with the operations above: three nodes with one
  input and one output pin each (nodes 0, 1, 2 of graph 0), and for every edge the record
  in the tail's out-edges and the record in the head's in-edges, as \<^verbatim>\<open>BuildEdges\<close> creates
  them.
\<close>

definition empty_heap :: heap where
  "empty_heap = \<lparr>nodes = (\<lambda>_. \<lparr>Guid = 0, OriginalNode = None, SubGraph = None, Size = (0, 0),
             InEdges = [], OutEdges = [], InPins = [], OutPins = [],
             PathDepth = 0, PositioningPriority = 0, Position = (0, 0), OrderValue = 0\<rparr>),
     pins = (\<lambda>_. \<lparr>PinGuid = 0, OriginalPin = None, Direction = EGPD_Input, OwningNode = 0,
                   NodeOffset = (0, 0)\<rparr>),
     edges = (\<lambda>_. \<lparr>From = 0, FromIndex = 0, To = 0, ToIndex = 0\<rparr>),
     graphs = (\<lambda>_. empty_graph),
     next_node = 0, next_pin = 0, next_edge = 0, next_graph = 1, next_guid = 0\<rparr>"

definition add_default_node :: "graph_ptr \<Rightarrow> heap \<Rightarrow> heap" where
  "add_default_node g h = (case FFormatterNode_default h of (n, h') \<Rightarrow> AddNode g n h')"

definition link :: "node_ptr \<Rightarrow> node_ptr \<Rightarrow> heap \<Rightarrow> heap" where
  "link u v h =
     (let po = hd (OutPins (nodes h u)); pi = hd (InPins (nodes h v))
      in Connect v pi po (Connect u po pi h))"

definition cycle3 :: heap where
  "cycle3 = link 2 0 (link 1 2 (link 0 1
              (add_default_node 0 (add_default_node 0 (add_default_node 0 empty_heap)))))"

lemmas eval_defs = NewGuid_def new_pin_def new_edge_def set_node_def set_edge_def set_graph_def
  RemoveAt_def TArray_Find_def Connect_def Disconnect_Predicate_def Disconnect_def EdgeTarget_def
  GetSuccessors_def GetPredecessors_def
  IsSource_def IsSink_def FFormatterNode_default_def AddNode_pin_def AddNode_def RemoveNode_edge_def
  RemoveNode_pin_def RemoveNode_def FindSourceNode_def FindSinkNode_def FFormatterNode_copy_def
  empty_graph_def copy_connect_def copy_node_edges_def copy_add_node_def copy_isolated_def
  DegreeDiff_def FindMedianNode_step_def FindMedianNode_def RemoveCycle_edge_def RemoveCycle_body_def
  RemoveCycle_def empty_heap_def add_default_node_def link_def INT_MAX_def Let_def
  RemoveCycle_sources.simps RemoveCycle_sinks.simps RemoveCycle_medians.simps

lemma cycle3_shape:
  "Nodes (graphs cycle3 0) = [0, 1, 2] \<and>
   map (GetSuccessors cycle3) [0, 1, 2] = [[1], [2], [0]] \<and>
   map (GetPredecessors cycle3) [0, 1, 2] = [[2], [0], [1]] \<and>
   map (DegreeDiff cycle3) [0, 1, 2] = [0, 0, 0] \<and>
   FindMedianNode 0 cycle3 = Some 2"
  by (simp add: cycle3_def eval_defs)

lemma cycle3_RemoveCycle_body:
  "(case RemoveCycle_body (Suc 0) 0 cycle3 of
      None \<Rightarrow> False
    | Some (c, h') \<Rightarrow>
        c = 1 \<and> Nodes (graphs h' c) = [] \<and> Nodes (graphs h' 0) = [0, 1, 2] \<and>
        map (GetSuccessors h') [0, 1, 2] = [[1], [], [0]] \<and>
        map (GetPredecessors h') [0, 1, 2] = [[2], [0], []])"
  by (simp add: cycle3_def eval_defs)

text \<open>
  On the three-cycle the edge \<open>B \<rightarrow> C\<close> is in the input. After \<^verbatim>\<open>RemoveCycle\<close> node B has
  no out-edge and node C has no in-edge, and there is no record of a reversed edge
  \<open>C \<rightarrow> B\<close> either: the edge is deleted, not kept with a mark.
\<close>

theorem RemoveCycle_cycle3_edge_deleted:
  "GetSuccessors cycle3 1 = [2] \<and> GetPredecessors cycle3 2 = [1] \<and>
   RemoveCycle (Suc 0) 0 cycle3 \<noteq> None \<and>
   GetSuccessors (the (RemoveCycle (Suc 0) 0 cycle3)) 1 = [] \<and>
   GetPredecessors (the (RemoveCycle (Suc 0) 0 cycle3)) 2 = [] \<and>
   GetSuccessors (the (RemoveCycle (Suc 0) 0 cycle3)) 2 = [0] \<and>
   GetPredecessors (the (RemoveCycle (Suc 0) 0 cycle3)) 1 = [0]"
  using cycle3_shape cycle3_RemoveCycle_body
  by (auto simp: RemoveCycle_def split: option.splits)

text \<open>
  C2 (amended). On the three-cycle \<open>A \<rightarrow> B \<rightarrow> C \<rightarrow> A\<close>, \<^verbatim>\<open>RemoveCycle\<close> returns, the graph
  keeps its three nodes and has no directed cycle afterwards, and exactly one edge is
  gone: the in-edge \<open>B \<rightarrow> C\<close> of the median node C (the last node) is disconnected at both
  ends, while \<open>A \<rightarrow> B\<close> and \<open>C \<rightarrow> A\<close> are still recorded in both of their nodes.
\<close>

theorem RemoveCycle_cycle3:
  "\<exists>h'. RemoveCycle (Suc 0) 0 cycle3 = Some h' \<and>
        Nodes (graphs h' 0) = [0, 1, 2] \<and>
        map (GetSuccessors h') [0, 1, 2] = [[1], [], [0]] \<and>
        map (GetPredecessors h') [0, 1, 2] = [[2], [0], []] \<and>
        acyclic {(u, v). u \<in> set (Nodes (graphs h' 0)) \<and> v \<in> set (GetSuccessors h' u)}"
proof -
  obtain c h' where r: "RemoveCycle_body (Suc 0) 0 cycle3 = Some (c, h')"
    and obs: "Nodes (graphs h' 0) = [0, 1, 2]" "map (GetSuccessors h') [0, 1, 2] = [[1], [], [0]]"
      "map (GetPredecessors h') [0, 1, 2] = [[2], [0], []]"
    using cycle3_RemoveCycle_body by (auto split: option.splits)
  have "acyclic {(u, v). u \<in> set (Nodes (graphs h' 0)) \<and> v \<in> set (GetSuccessors h' u)}"
  proof (rule acyclicI_order [where f = "\<lambda>n::nat. if n = 2 then 2 else if n = 0 then 1 else (0::nat)"])
    fix a b assume "(a, b) \<in> {(u, v). u \<in> set (Nodes (graphs h' 0)) \<and> v \<in> set (GetSuccessors h' u)}"
    then show "(if b = 2 then 2 else if b = 0 then 1 else (0::nat)) < (if a = 2 then 2 else if a = 0 then 1 else 0)"
      using obs by auto
  qed
  with r obs show ?thesis by (simp add: RemoveCycle_def)
qed

text \<open>
  On the three-cycle every node has degree difference 0, and \<^verbatim>\<open>FindMedianNode\<close> returns
  the last node.
\<close>

theorem FindMedianNode_last_maximal_witness:
  "(\<exists>n \<in> set (Nodes (graphs cycle3 0)). DegreeDiff cycle3 n \<ge> 0) \<and>
   FindMedianNode 0 cycle3 = Some 2 \<and>
   (\<exists>i < length (Nodes (graphs cycle3 0)).
      FindMedianNode 0 cycle3 = Some (Nodes (graphs cycle3 0) ! i) \<and>
      (\<forall>n \<in> set (Nodes (graphs cycle3 0)).
         DegreeDiff cycle3 n \<le> DegreeDiff cycle3 (Nodes (graphs cycle3 0) ! i)) \<and>
      (\<forall>j. i < j \<and> j < length (Nodes (graphs cycle3 0)) \<longrightarrow>
         DegreeDiff cycle3 (Nodes (graphs cycle3 0) ! j) < DegreeDiff cycle3 (Nodes (graphs cycle3 0) ! i)))"
proof -
  have h: "\<exists>n \<in> set (Nodes (graphs cycle3 0)). DegreeDiff cycle3 n \<ge> 0"
    using cycle3_shape by simp
  show ?thesis
    using h FindMedianNode_last_maximal [OF h] cycle3_shape by simp
qed

section \<open>Two ranks with two crossing edges\<close>

text \<open>
  Four nodes with one input and one output pin each, the ranks \<open>[0, 1]\<close> and \<open>[2, 3]\<close>,
  and the edges \<open>0 \<rightarrow> 3\<close> and \<open>1 \<rightarrow> 2\<close>, which cross.
\<close>

definition crossed4 :: heap where
  "crossed4 = link 1 2 (link 0 3
     (add_default_node 0 (add_default_node 0 (add_default_node 0 (add_default_node 0 empty_heap)))))"

lemma crossed4_shape:
  "map (\<lambda>n. OutPins (nodes crossed4 n)) [0, 1] = [[1], [3]] \<and>
   map (\<lambda>n. InPins (nodes crossed4 n)) [2, 3] = [[4], [6]] \<and>
   map (\<lambda>n. OutEdges (nodes crossed4 n)) [0, 1] = [[0], [2]] \<and>
   map (\<lambda>e. (From (edges crossed4 e), To (edges crossed4 e))) [0, 2] = [(1, 6), (3, 4)] \<and>
   map (\<lambda>p. OwningNode (pins crossed4 p)) [4, 6] = [2, 3]"
  by (simp add: crossed4_def eval_defs)

text \<open>
  The layered list \<open>[[0, 1], [2, 3]]\<close> of this graph is well formed, its brute-force count
  is 1, and so \<^verbatim>\<open>CalculateCrossing\<close> returns 1.
\<close>

theorem CalculateCrossing_brute_force_witness:
  "ranks_wf crossed4 [[0, 1], [2, 3]] \<and>
   brute_force_crossing crossed4 [[0, 1], [2, 3]] = 1 \<and>
   fst (CalculateCrossing [[0, 1], [2, 3]] crossed4) = 1"
proof -
  have wf: "ranks_wf crossed4 [[0, 1], [2, 3]]"
    using crossed4_shape
    by (simp add: rank_pair_wf_def rank_out_pins_def rank_in_pins_def rank_out_edges_def
          EdgeTarget_def)
  have eb: "edges_between crossed4 [0, 1] [2, 3] = [0, 2]"
    using crossed4_shape by (simp add: edges_between_def rank_out_edges_def EdgeTarget_def)
  have pos: "from_position crossed4 [0, 1] 0 = 0" "from_position crossed4 [0, 1] 2 = 1"
    "to_position crossed4 [2, 3] 0 = 1" "to_position crossed4 [2, 3] 2 = 0"
    using crossed4_shape
    by (simp_all add: from_position_def to_position_def pin_position_def rank_out_pins_def
          rank_in_pins_def)
  have c02: "edges_cross crossed4 [0, 1] [2, 3] 0 2"
    using pos by (simp add: edges_cross_def)
  have "crossing_pairs crossed4 [0, 1] [2, 3] = {{0, 2}}"
  proof (intro equalityI subsetI)
    fix s assume "s \<in> crossing_pairs crossed4 [0, 1] [2, 3]"
    then obtain a b where "s = {a, b}" "a = 0 \<or> a = 2" "b = 0 \<or> b = 2"
      "edges_cross crossed4 [0, 1] [2, 3] a b"
      unfolding crossing_pairs_def eb by auto
    then show "s \<in> {{0, 2}}"
      using edges_cross_irrefl [of crossed4 "[0, 1]" "[2, 3]"] by auto
  next
    fix s :: "nat set" assume "s \<in> {{0, 2}}"
    then have "s = {0, 2}" by simp
    then show "s \<in> crossing_pairs crossed4 [0, 1] [2, 3]"
      using crossing_pairsI [OF _ _ c02] eb by simp
  qed
  then have bf: "brute_force_crossing crossed4 [[0, 1], [2, 3]] = 1"
    by simp
  from CalculateCrossing_brute_force [OF wf] bf wf show ?thesis
    by simp
qed

section \<open>A graph with a long edge\<close>

text \<open>
  The acyclic graph with the path \<open>0 \<rightarrow> 1 \<rightarrow> 2 \<rightarrow> 3\<close> and the edge \<open>0 \<rightarrow> 3\<close>.
\<close>

definition dag4 :: heap where
  "dag4 = link 0 3 (link 2 3 (link 1 2 (link 0 1
            (add_default_node 0 (add_default_node 0 (add_default_node 0
               (add_default_node 0 empty_heap)))))))"

lemma dag4_shape:
  "Nodes (graphs dag4 0) = [0, 1, 2, 3] \<and>
   map (GetSuccessors dag4) [0, 1, 2, 3] = [[1, 3], [2], [3], []] \<and>
   map (GetPredecessors dag4) [0, 1, 2, 3] = [[], [0], [1], [2, 0]] \<and>
   map (\<lambda>n. PathDepth (nodes dag4 n)) [0, 1, 2, 3] = [0, 0, 0, 0]"
  by (simp add: dag4_def eval_defs)

lemmas layering_defs = SuccessorPathDepthEqu0_def AnySuccessorPathDepthEqu0_def
  GetLeavesWidthPathDepthEqu0_keep_def GetLeavesWidthPathDepthEqu0_def set_PathDepth_def
  CalculateLongestPath_loop.simps CalculateLongestPath_def TSet_Add_def GetSuccessorsForNodes_node_def
  GetSuccessorsForNodes_def GetNodesGreaterThan_keep_def GetNodesGreaterThan_def DoLayering_node_def
  DoLayering_layer_def DoLayering_iteration_def DoLayering_loop.simps DoLayering_def

lemma dag4_DoLayering:
  "LayeredList (graphs (DoLayering 0 dag4) 0) = [[0], [1], [2], [3]]"
  by (simp add: dag4_def eval_defs layering_defs)

text \<open>
  The graph satisfies the hypotheses of the layering theorem; \<^verbatim>\<open>DoLayering\<close> puts its
  nodes in the four layers \<open>[0]\<close>, \<open>[1]\<close>, \<open>[2]\<close>, \<open>[3]\<close>, and the head of every edge is in a
  later layer than its tail.
\<close>

theorem DoLayering_rank_feasible_witness:
  "Nodes (graphs dag4 0) \<noteq> [] \<and> edges_mirrored 0 dag4 \<and> acyclic (successor_rel 0 dag4) \<and>
   list_all (\<lambda>n. PathDepth (nodes dag4 n) = 0) (Nodes (graphs dag4 0)) \<and>
   LayeredList (graphs (DoLayering 0 dag4) 0) = [[0], [1], [2], [3]] \<and>
   list_all (\<lambda>u. list_all (\<lambda>v.
        \<exists>i j. i < j \<and> j < length (LayeredList (graphs (DoLayering 0 dag4) 0)) \<and>
              u \<in> set (LayeredList (graphs (DoLayering 0 dag4) 0) ! i) \<and>
              v \<in> set (LayeredList (graphs (DoLayering 0 dag4) 0) ! j))
      (GetSuccessors (DoLayering 0 dag4) u)) (Nodes (graphs dag4 0))"
proof -
  have h1: "Nodes (graphs dag4 0) \<noteq> []"
    using dag4_shape by simp
  have h2: "edges_mirrored 0 dag4"
    using dag4_shape by (simp add: edges_mirrored_def)
  have h3: "acyclic (successor_rel 0 dag4)"
  proof (rule acyclicI_order [where f = "\<lambda>n::nat. 3 - n"])
    fix a b assume "(a, b) \<in> successor_rel 0 dag4"
    then show "3 - b < 3 - a"
      using dag4_shape by (auto simp: successor_rel_def)
  qed
  have h4: "\<forall>n \<in> set (Nodes (graphs dag4 0)). PathDepth (nodes dag4 n) = 0"
    using dag4_shape by simp
  have h4': "list_all (\<lambda>n. PathDepth (nodes dag4 n) = 0) (Nodes (graphs dag4 0))"
    using h4 unfolding list_all_iff .
  have c: "list_all (\<lambda>u. list_all (\<lambda>v.
        \<exists>i j. i < j \<and> j < length (LayeredList (graphs (DoLayering 0 dag4) 0)) \<and>
              u \<in> set (LayeredList (graphs (DoLayering 0 dag4) 0) ! i) \<and>
              v \<in> set (LayeredList (graphs (DoLayering 0 dag4) 0) ! j))
      (GetSuccessors (DoLayering 0 dag4) u)) (Nodes (graphs dag4 0))"
    using DoLayering_rank_feasible [OF h1 h2 h3 h4] unfolding list_all_iff by blast
  show ?thesis
    by (intro conjI h1 h2 h3 h4' dag4_DoLayering c)
qed

section \<open>A clone of the three-cycle\<close>




end
